theory Spec2Isabelle
  imports Complex_Main "HOL-Library.Sublist"
begin

section \<open>JavaScript numbers\<close>

text \<open>
  The detector computes with JavaScript numbers. A finite number is modelled by the real
  it denotes (rounding and overflow of the binary format are not modelled, and the two
  zeros are one), and the three special values of a division are kept: a division by
  zero does not raise in JavaScript, it yields an infinity or NaN, and every comparison
  with NaN is false.
\<close>

datatype jsnum = Fin real | PInf | NInf | NaN

fun js_neg :: "jsnum \<Rightarrow> jsnum" where
  "js_neg (Fin a) = Fin (- a)"
| "js_neg PInf = NInf"
| "js_neg NInf = PInf"
| "js_neg NaN = NaN"

fun js_add :: "jsnum \<Rightarrow> jsnum \<Rightarrow> jsnum" where
  "js_add (Fin a) (Fin b) = Fin (a + b)"
| "js_add (Fin a) PInf = PInf"
| "js_add (Fin a) NInf = NInf"
| "js_add PInf (Fin b) = PInf"
| "js_add PInf PInf = PInf"
| "js_add PInf NInf = NaN"
| "js_add NInf (Fin b) = NInf"
| "js_add NInf NInf = NInf"
| "js_add NInf PInf = NaN"
| "js_add NaN b = NaN"
| "js_add a NaN = NaN"

definition js_sub :: "jsnum \<Rightarrow> jsnum \<Rightarrow> jsnum" where
  "js_sub a b = js_add a (js_neg b)"

text \<open>The sign of a product or quotient with an infinite operand.\<close>

definition signed_inf :: "bool \<Rightarrow> jsnum" where
  "signed_inf positive = (if positive then PInf else NInf)"

fun js_mul :: "jsnum \<Rightarrow> jsnum \<Rightarrow> jsnum" where
  "js_mul (Fin a) (Fin b) = Fin (a * b)"
| "js_mul (Fin a) PInf = (if a = 0 then NaN else signed_inf (0 < a))"
| "js_mul (Fin a) NInf = (if a = 0 then NaN else signed_inf (a < 0))"
| "js_mul PInf (Fin b) = (if b = 0 then NaN else signed_inf (0 < b))"
| "js_mul NInf (Fin b) = (if b = 0 then NaN else signed_inf (b < 0))"
| "js_mul PInf PInf = PInf"
| "js_mul PInf NInf = NInf"
| "js_mul NInf PInf = NInf"
| "js_mul NInf NInf = PInf"
| "js_mul NaN b = NaN"
| "js_mul a NaN = NaN"

fun js_div :: "jsnum \<Rightarrow> jsnum \<Rightarrow> jsnum" where
  "js_div (Fin a) (Fin b) =
     (if b \<noteq> 0 then Fin (a / b)
      else if 0 < a then PInf else if a < 0 then NInf else NaN)"
| "js_div (Fin a) PInf = Fin 0"
| "js_div (Fin a) NInf = Fin 0"
| "js_div PInf (Fin b) = signed_inf (0 \<le> b)"
| "js_div NInf (Fin b) = signed_inf (b < 0)"
| "js_div PInf PInf = NaN"
| "js_div PInf NInf = NaN"
| "js_div NInf PInf = NaN"
| "js_div NInf NInf = NaN"
| "js_div NaN b = NaN"
| "js_div a NaN = NaN"

fun js_lt :: "jsnum \<Rightarrow> jsnum \<Rightarrow> bool" where
  "js_lt (Fin a) (Fin b) = (a < b)"
| "js_lt (Fin a) PInf = True"
| "js_lt (Fin a) NInf = False"
| "js_lt PInf b = False"
| "js_lt NInf (Fin b) = True"
| "js_lt NInf PInf = True"
| "js_lt NInf NInf = False"
| "js_lt NaN b = False"
| "js_lt a NaN = False"

definition js_gt :: "jsnum \<Rightarrow> jsnum \<Rightarrow> bool" where
  "js_gt a b = js_lt b a"

fun js_le :: "jsnum \<Rightarrow> jsnum \<Rightarrow> bool" where
  "js_le NaN b = False"
| "js_le a NaN = False"
| "js_le a b = (\<not> js_lt b a)"

definition js_ge :: "jsnum \<Rightarrow> jsnum \<Rightarrow> bool" where
  "js_ge a b = js_le b a"

fun js_abs :: "jsnum \<Rightarrow> jsnum" where
  "js_abs (Fin a) = Fin \<bar>a\<bar>"
| "js_abs PInf = PInf"
| "js_abs NInf = PInf"
| "js_abs NaN = NaN"

text \<open>\<^verbatim>\<open>Math.min\<close> of two numbers: NaN if either is NaN.\<close>

fun js_min :: "jsnum \<Rightarrow> jsnum \<Rightarrow> jsnum" where
  "js_min NaN b = NaN"
| "js_min a NaN = NaN"
| "js_min a b = (if js_lt b a then b else a)"

section \<open>Points and the two distance primitives\<close>

datatype point = Point (px: real) (py: real)

text \<open>\<^verbatim>\<open>crossProduct(o, a, b)\<close>.\<close>

definition crossProduct :: "point \<Rightarrow> point \<Rightarrow> point \<Rightarrow> real" where
  "crossProduct o' a b =
     (px a - px o') * (py b - py o') - (py a - py o') * (px b - px o')"

text \<open>
  \<^verbatim>\<open>perpendicularDistance(point, lineStart, lineEnd)\<close>: the quotient is a JavaScript
  division, so a line whose two ends coincide gives \<open>0 / 0\<close>, which is NaN.
\<close>

definition perpendicularDistance :: "point \<Rightarrow> point \<Rightarrow> point \<Rightarrow> jsnum" where
  "perpendicularDistance point lineStart lineEnd =
     (let dx = px lineEnd - px lineStart;
          dy = py lineEnd - py lineStart;
          num = \<bar>dy * px point - dx * py point
                  + px lineEnd * py lineStart - py lineEnd * px lineStart\<bar>;
          den = sqrt (dx * dx + dy * dy)
      in js_div (Fin num) (Fin den))"

section \<open>Douglas-Peucker simplification\<close>

datatype js_error = RangeError

text \<open>
  The scan of \<^verbatim>\<open>douglasPeucker\<close> over the interior points, \<^verbatim>\<open>i = 1 .. end - 1\<close>:
  the state is \<^verbatim>\<open>(maxDist, index)\<close>, and a point replaces the maximum only when
  its distance is strictly greater.
\<close>

fun farthest :: "point \<Rightarrow> point \<Rightarrow> point list \<Rightarrow> nat \<Rightarrow> jsnum \<times> nat \<Rightarrow> jsnum \<times> nat" where
  "farthest a b [] i acc = acc"
| "farthest a b (p # ps) i acc =
     farthest a b ps (Suc i)
       (if js_gt (perpendicularDistance p a b) (fst acc)
        then (perpendicularDistance p a b, i) else acc)"

definition dp_scan :: "point list \<Rightarrow> jsnum \<times> nat" where
  "dp_scan points = farthest (hd points) (last points) (butlast (tl points)) 1 (Fin 0, 0)"

lemma farthest_index_le:
  "snd acc \<le> n \<Longrightarrow> i + length ps \<le> Suc n \<Longrightarrow> snd (farthest a b ps i acc) \<le> n"
proof (induction ps arbitrary: i acc)
  case Nil
  then show ?case by simp
next
  case (Cons p ps)
  have "snd (if js_gt (perpendicularDistance p a b) (fst acc)
             then (perpendicularDistance p a b, i) else acc) \<le> n"
    using Cons.prems by simp
  moreover have "Suc i + length ps \<le> Suc n"
    using Cons.prems by simp
  ultimately show ?case
    using Cons.IH by simp
qed

lemma dp_scan_index_lt: "3 \<le> length points \<Longrightarrow> Suc (snd (dp_scan points)) < length points"
proof -
  assume len: "3 \<le> length points"
  have "snd (dp_scan points) \<le> length points - 2"
    unfolding dp_scan_def using len
    by (intro farthest_index_le) simp_all
  with len show ?thesis by simp
qed

text \<open>
  \<^verbatim>\<open>douglasPeucker(points, epsilon)\<close>. The function calls itself, and the call stack
  of the engine is finite: a call for which no room is left raises \<^verbatim>\<open>RangeError\<close>. The
  source fixes no depth, so it is a parameter of the model: \<open>frames\<close> is the number of
  nested calls of \<^verbatim>\<open>douglasPeucker\<close> that the stack has room for when the call is made. A
  call takes one of them, and its two recursive calls find one less.

  When the maximum is above the tolerance while \<^verbatim>\<open>index\<close> is still 0 (possible only for a
  negative tolerance), the right half \<^verbatim>\<open>points.slice(0)\<close> is the whole input again, and
  the calls nest until no room is left.
\<close>

fun douglasPeucker :: "nat \<Rightarrow> point list \<Rightarrow> jsnum \<Rightarrow> js_error + point list" where
  "douglasPeucker 0 points epsilon = Inl RangeError"
| "douglasPeucker (Suc frames) points epsilon =
     (if length points < 3 then Inr points
      else if js_gt (fst (dp_scan points)) epsilon then
        (case douglasPeucker frames (take (snd (dp_scan points) + 1) points) epsilon of
           Inl e \<Rightarrow> Inl e
         | Inr left \<Rightarrow>
            (case douglasPeucker frames (drop (snd (dp_scan points)) points) epsilon of
               Inl e \<Rightarrow> Inl e
             | Inr right \<Rightarrow> Inr (butlast left @ right)))
      else Inr [hd points, last points])"

declare douglasPeucker.simps [simp del]




text \<open>
  Three measures in which the properties of the simplifier are stated: the length of the
  segment between two points, the distance of a point from the line through two
  different points (the value of \<^verbatim>\<open>perpendicularDistance\<close> when its division is an ordinary
  one), and the length of the open polygonal line through a list of points, without the
  closing edge that \<^verbatim>\<open>calculatePerimeter\<close> adds.
\<close>

definition segmentLength :: "point \<Rightarrow> point \<Rightarrow> real" where
  "segmentLength p1 p2 = sqrt ((px p2 - px p1)\<^sup>2 + (py p2 - py p1)\<^sup>2)"

definition offLine :: "point \<Rightarrow> point \<Rightarrow> point \<Rightarrow> real" where
  "offLine a b p = \<bar>crossProduct a b p\<bar> / segmentLength a b"

definition pathLength :: "point list \<Rightarrow> real" where
  "pathLength ps = sum_list (map (\<lambda>(p1, p2). segmentLength p1 p2) (zip ps (tl ps)))"

section \<open>Convex hull (Graham scan)\<close>

text \<open>
  \<^verbatim>\<open>Math.atan2(y, x)\<close> on finite arguments, with \<open>atan2 0 0 = 0\<close> as in JavaScript.
\<close>

definition atan2 :: "real \<Rightarrow> real \<Rightarrow> real" where
  "atan2 y x =
     (if 0 < x then arctan (y / x)
      else if x < 0 then (if 0 \<le> y then arctan (y / x) + pi else arctan (y / x) - pi)
      else if 0 < y then pi / 2 else if y < 0 then - (pi / 2) else 0)"

text \<open>
  The pivot of \<^verbatim>\<open>convexHull\<close>: the loop that keeps the point with the greatest \<open>y\<close>,
  and among these the smallest \<open>x\<close>, starting from \<^verbatim>\<open>points[0]\<close>.
\<close>

definition lowest :: "point list \<Rightarrow> point" where
  "lowest points =
     fold (\<lambda>p bottom. if py bottom < py p \<or> (py p = py bottom \<and> px p < px bottom)
                       then p else bottom) points (hd points)"

definition polarAngle :: "point \<Rightarrow> point \<Rightarrow> real" where
  "polarAngle bottom a = atan2 (py a - py bottom) (px a - px bottom)"

text \<open>
  The scan keeps the array \<^verbatim>\<open>hull\<close> as a stack, its top at the head of the list:
  \<open>popNonLeft\<close> is the inner \<^verbatim>\<open>while\<close> loop, which pops while the two topmost points
  and the candidate make no left turn, and \<open>scanStep\<close> is one round of the outer loop.
\<close>

fun popNonLeft :: "point list \<Rightarrow> point \<Rightarrow> point list" where
  "popNonLeft (a # o' # rest) p =
     (if crossProduct o' a p \<le> 0 then popNonLeft (o' # rest) p else a # o' # rest)"
| "popNonLeft st p = st"

definition scanStep :: "point \<Rightarrow> point list \<Rightarrow> point list" where
  "scanStep p st = p # popNonLeft st p"

text \<open>
  \<^verbatim>\<open>convexHull(points)\<close>. The comparator \<^verbatim>\<open>angleA - angleB\<close> orders by the polar angle
  alone, and the sort of the platform is stable, so the sorted array is the stable sort by
  that key.
\<close>

definition convexHull :: "point list \<Rightarrow> point list" where
  "convexHull points =
     (if length points < 3 then points
      else rev (fold scanStep (sort_key (polarAngle (lowest points)) points) []))"

text \<open>Every three consecutive vertices make a strict left turn.\<close>

fun leftTurning :: "point list \<Rightarrow> bool" where
  "leftTurning (o' # a # b # rest) = (0 < crossProduct o' a b \<and> leftTurning (a # b # rest))"
| "leftTurning vs = True"

text \<open>
  The polygon of a vertex list has an edge between consecutive vertices and a closing edge
  from the last vertex to the first. A point lies on or inside a convex polygon when it
  is on the same side of every edge.
\<close>

definition polygonEdges :: "point list \<Rightarrow> (point \<times> point) list" where
  "polygonEdges vs = zip vs (rotate1 vs)"

definition onOrInside :: "point list \<Rightarrow> point \<Rightarrow> bool" where
  "onOrInside vs p =
     (list_all (\<lambda>(a, b). 0 \<le> crossProduct a b p) (polygonEdges vs) \<or>
      list_all (\<lambda>(a, b). crossProduct a b p \<le> 0) (polygonEdges vs))"

text \<open>The same property read from the top of the stack.\<close>

fun turnsDown :: "point list \<Rightarrow> bool" where
  "turnsDown (b # a # o' # rest) = (0 < crossProduct o' a b \<and> turnsDown (a # o' # rest))"
| "turnsDown st = True"

section \<open>Shape classifier\<close>

datatype shapeType = Circle | Triangle | Rectangle | Pentagon | Star

text \<open>
  The bounding box and the result record \<^verbatim>\<open>DetectedShape\<close>; the fields carry a prefix
  because a field name is a constant of the theory.
\<close>

record bbox =
  bbox_x :: real
  bbox_y :: real
  bbox_width :: real
  bbox_height :: real

record DetectedShape =
  shape_type :: shapeType
  shape_confidence :: jsnum
  shape_boundingBox :: bbox
  shape_center :: point
  shape_area :: real

text \<open>
  The distance of a hull point from the centre,
  \<^verbatim>\<open>Math.sqrt((p.x - center.x) ** 2 + (p.y - center.y) ** 2)\<close>, written out twice in the
  source.
\<close>

definition radial :: "point \<Rightarrow> point \<Rightarrow> real" where
  "radial p center = sqrt ((px p - px center)\<^sup>2 + (py p - py center)\<^sup>2)"

text \<open>
  \<^verbatim>\<open>isCircular\<close>. The three metrics arrive as quotients, so they are JavaScript numbers;
  the mean error divides by the number of hull points.
\<close>

definition isCircular :: "point list \<Rightarrow> point \<Rightarrow> bbox \<Rightarrow> jsnum \<Rightarrow> jsnum \<Rightarrow> jsnum \<Rightarrow> bool" where
  "isCircular hullPoints center box circularity extent aspectRatio =
     (if js_gt (js_abs (js_sub aspectRatio (Fin 1.0))) (Fin 0.25) then False
      else if js_lt circularity (Fin 0.70) \<or> js_lt extent (Fin 0.70) then False
      else
        (let radius = (bbox_width box + bbox_height box) / 4;
             sumError = fold (\<lambda>p s. js_add s (js_div (Fin \<bar>radial p center - radius\<bar>) (Fin radius)))
                          hullPoints (Fin 0);
             avgError = js_div sumError (Fin (real (length hullPoints)))
         in js_lt avgError (Fin 0.20)))"

text \<open>
  \<^verbatim>\<open>isStar\<close>. The sum \<^verbatim>\<open>distances.reduce((a, b) => a + b)\<close> starts from the first element; it
  is reached only with at least 8 distances. The loop over \<^verbatim>\<open>i\<close> compares each distance
  with the next one, the last with the first.
\<close>

definition isStar :: "point list \<Rightarrow> point \<Rightarrow> nat \<Rightarrow> jsnum \<Rightarrow> bool" where
  "isStar hullPoints center vertices extent =
     (if js_gt extent (Fin 0.50) then False
      else if vertices < 6 \<or> 25 < vertices then False
      else
        (let distances = map (\<lambda>p. radial p center) hullPoints in
         if length distances < 8 then False
         else
           (let avgDist = foldl (+) (hd distances) (tl distances) / real (length distances);
                variance = fold (\<lambda>d s. s + (d - avgDist)\<^sup>2) distances 0
                             / real (length distances);
                stdDev = sqrt variance;
                coefficientOfVariation = js_div (Fin stdDev) (Fin avgDist)
            in if js_lt coefficientOfVariation (Fin 0.10) then False
               else
                 (let alternations =
                        length (filter (\<lambda>(curr, next). avgDist * 0.15 < \<bar>curr - next\<bar>)
                                  (zip distances (rotate1 distances)));
                      minAlternations = min 4 (nat \<lfloor>real (length distances) * 0.3\<rfloor>)
                  in minAlternations \<le> alternations))))"

text \<open>The three derived metrics of \<^verbatim>\<open>classifyShape\<close>, each a JavaScript division.\<close>

definition aspectRatioOf :: "bbox \<Rightarrow> jsnum" where
  "aspectRatioOf box = js_div (Fin (bbox_width box)) (Fin (bbox_height box))"

definition extentOf :: "real \<Rightarrow> bbox \<Rightarrow> jsnum" where
  "extentOf area box = js_div (Fin area) (Fin (bbox_width box * bbox_height box))"

definition circularityOf :: "real \<Rightarrow> real \<Rightarrow> jsnum" where
  "circularityOf area perimeter = js_div (Fin (4 * pi * area)) (Fin (perimeter * perimeter))"

text \<open>
  \<^verbatim>\<open>classifyShape\<close>: the rules in the order of the source, \<open>None\<close> for \<^verbatim>\<open>null\<close>.
\<close>

definition classifyShape ::
  "point list \<Rightarrow> point list \<Rightarrow> bbox \<Rightarrow> point \<Rightarrow> real \<Rightarrow> real \<Rightarrow> (shapeType \<times> jsnum) option" where
  "classifyShape approx hullPoints box center area perimeter =
     (let vertices = length approx;
          aspectRatio = aspectRatioOf box;
          extent = extentOf area box;
          circularity = circularityOf area perimeter
      in
      if isCircular hullPoints center box circularity extent aspectRatio then
        Some (Circle, js_add (Fin 0.90) (js_min (Fin 0.08) (js_mul circularity (Fin 0.1))))
      else if vertices = 3 then Some (Triangle, Fin 0.92)
      else if vertices = 4 \<and> js_gt extent (Fin 0.70) then
        Some (Rectangle, if js_gt extent (Fin 0.85) then Fin 0.95 else Fin 0.88)
      else if vertices = 4 \<and> js_lt extent (Fin 0.60) then Some (Triangle, Fin 0.85)
      else if vertices = 5 \<and> js_gt extent (Fin 0.65) then
        Some (Pentagon, if js_gt extent (Fin 0.75) then Fin 0.88 else Fin 0.80)
      else if vertices = 5 \<and> js_gt extent (Fin 0.45) \<and> js_le extent (Fin 0.65) \<and>
              js_gt aspectRatio (Fin 0.7) \<and> js_lt aspectRatio (Fin 1.5) then
        Some (Rectangle, Fin 0.82)
      else if 8 \<le> vertices \<and> js_lt extent (Fin 0.50) \<and>
              isStar hullPoints center vertices extent then
        Some (Star, Fin 0.85)
      else if 6 \<le> vertices \<and> vertices \<le> 7 \<and> js_lt extent (Fin 0.38) \<and>
              isStar hullPoints center vertices extent then
        Some (Star, Fin 0.75)
      else if vertices = 4 then Some (Rectangle, Fin 0.78)
      else if vertices = 5 then
        (if js_lt extent (Fin 0.55) then Some (Triangle, Fin 0.70)
         else Some (Pentagon, Fin 0.75))
      else if vertices = 6 \<and> js_gt extent (Fin 0.50) then Some (Pentagon, Fin 0.70)
      else if 7 \<le> vertices \<and> js_lt extent (Fin 0.50) then Some (Star, Fin 0.70)
      else if 10 \<le> vertices \<and> js_lt extent (Fin 0.60) then Some (Star, Fin 0.65)
      else if 10 \<le> vertices \<and> js_gt extent (Fin 0.80) then Some (Rectangle, Fin 0.60)
      else if vertices = 2 \<and> js_gt extent (Fin 0.85) then Some (Rectangle, Fin 0.70)
      else None)"

section \<open>Analysis of one component\<close>

text \<open>
  \<^verbatim>\<open>calculatePerimeter\<close>: the loop adds the distance from each point to the next one, and
  from the last to the first.
\<close>

definition calculatePerimeter :: "point list \<Rightarrow> real" where
  "calculatePerimeter contour =
     fold (\<lambda>(p1, p2) perimeter. perimeter + sqrt ((px p2 - px p1)\<^sup>2 + (py p2 - py p1)\<^sup>2))
       (zip contour (rotate1 contour)) 0"

definition samplePoints :: "point list \<Rightarrow> nat \<Rightarrow> point list" where
  "samplePoints points n =
     (if length points \<le> n then points
      else map (\<lambda>i. points ! nat \<lfloor>real i * (real (length points) / real n)\<rfloor>) [0..<n])"

text \<open>
  \<^verbatim>\<open>extractBoundary\<close>: a pixel is kept when one of its four neighbours is inside the image
  and not in the component.
\<close>

definition neighbors :: "point \<Rightarrow> point list" where
  "neighbors p =
     [Point (px p + 1) (py p), Point (px p - 1) (py p),
      Point (px p) (py p + 1), Point (px p) (py p - 1)]"

definition extractBoundary :: "point list \<Rightarrow> real \<Rightarrow> real \<Rightarrow> point list" where
  "extractBoundary component width height =
     (let componentSet = set (map (\<lambda>p. py p * width + px p) component)
      in filter
           (\<lambda>p. list_ex
                  (\<lambda>n. 0 \<le> px n \<and> px n < width \<and> 0 \<le> py n \<and> py n < height \<and>
                       py n * width + px n \<notin> componentSet)
                  (neighbors p))
           component)"

text \<open>
  The bounding box loop of \<^verbatim>\<open>analyzeComponent\<close>, which starts from
  \<^verbatim>\<open>minX = width, maxX = 0, minY = height, maxY = 0\<close>, and the centre computed from it.
\<close>

definition minXOf :: "point list \<Rightarrow> real \<Rightarrow> real" where
  "minXOf component width = fold (\<lambda>p minX. min minX (px p)) component width"

definition maxXOf :: "point list \<Rightarrow> real" where
  "maxXOf component = fold (\<lambda>p maxX. max maxX (px p)) component 0"

definition minYOf :: "point list \<Rightarrow> real \<Rightarrow> real" where
  "minYOf component height = fold (\<lambda>p minY. min minY (py p)) component height"

definition maxYOf :: "point list \<Rightarrow> real" where
  "maxYOf component = fold (\<lambda>p maxY. max maxY (py p)) component 0"

definition boundingBoxOf :: "point list \<Rightarrow> real \<Rightarrow> real \<Rightarrow> bbox" where
  "boundingBoxOf component width height =
     \<lparr>bbox_x = minXOf component width,
      bbox_y = minYOf component height,
      bbox_width = maxXOf component - minXOf component width + 1,
      bbox_height = maxYOf component - minYOf component height + 1\<rparr>"

definition centerOf :: "point list \<Rightarrow> real \<Rightarrow> real \<Rightarrow> point" where
  "centerOf component width height =
     Point ((minXOf component width + maxXOf component) / 2)
           ((minYOf component height + maxYOf component) / 2)"

text \<open>The choice of \<^verbatim>\<open>contourToUse\<close> in \<^verbatim>\<open>analyzeComponent\<close>.\<close>

definition selectContour :: "point list \<Rightarrow> point list \<Rightarrow> jsnum \<Rightarrow> point list" where
  "selectContour boundary hullPoints extent =
     (if js_lt extent (Fin 0.40) then boundary
      else if length hullPoints < 4 \<and> js_gt extent (Fin 0.80) then boundary
      else hullPoints)"

text \<open>
  The approximation of the contour in \<^verbatim>\<open>analyzeComponent\<close>: one pass for
  \<^verbatim>\<open>extent < 0.40\<close>; otherwise the regular pass, the finer pass, the sampling and the
  coarser pass, each under its own test. Every pass is a call of \<^verbatim>\<open>douglasPeucker\<close> from
  the same depth of the stack, so each finds the same number of \<open>frames\<close>.
\<close>

definition approximate ::
  "nat \<Rightarrow> point list \<Rightarrow> real \<Rightarrow> jsnum \<Rightarrow> js_error + point list" where
  "approximate frames contourToUse perimeter extent =
     (if js_lt extent (Fin 0.40)
      then douglasPeucker frames contourToUse (Fin (0.01 * perimeter))
      else
        case douglasPeucker frames contourToUse (Fin (0.01 * perimeter)) of
          Inl e \<Rightarrow> Inl e
        | Inr regular \<Rightarrow>
           (case (if length regular < 4 \<and> js_gt extent (Fin 0.80)
                  then douglasPeucker frames contourToUse (Fin (0.005 * perimeter))
                  else Inr regular) of
              Inl e \<Rightarrow> Inl e
            | Inr finer \<Rightarrow>
               (let approx = (if length finer < 4 \<and> js_gt extent (Fin 0.80)
                              then samplePoints contourToUse (min (length contourToUse) 12)
                              else finer)
                in if 12 < length approx \<and> \<not> (js_gt extent (Fin 0.80) \<and> length approx < 20)
                   then
                     (case douglasPeucker frames contourToUse (Fin (0.03 * perimeter)) of
                        Inl e \<Rightarrow> Inl e
                      | Inr coarserApprox \<Rightarrow>
                          Inr (if 4 \<le> length coarserApprox then coarserApprox else approx))
                   else Inr approx)))"

text \<open>\<^verbatim>\<open>analyzeComponent\<close>: \<open>Inr None\<close> is the result \<^verbatim>\<open>null\<close>.\<close>

definition analyzeComponent ::
  "nat \<Rightarrow> point list \<Rightarrow> real \<Rightarrow> real \<Rightarrow> js_error + DetectedShape option" where
  "analyzeComponent frames component width height =
     (let box = boundingBoxOf component width height in
      if bbox_width box < 10 \<or> bbox_height box < 10 then Inr None
      else
        (let center = centerOf component width height;
             pixelArea = real (length component);
             boundary = extractBoundary component width height
         in if length boundary < 8 then Inr None
            else
              (let hullPoints = convexHull boundary;
                   extent = extentOf pixelArea box;
                   contourToUse = selectContour boundary hullPoints extent;
                   perimeter = calculatePerimeter contourToUse
               in case approximate frames contourToUse perimeter extent of
                    Inl e \<Rightarrow> Inl e
                  | Inr approx \<Rightarrow>
                     (case classifyShape approx hullPoints box center pixelArea perimeter of
                        None \<Rightarrow> Inr None
                      | Some (type, conf) \<Rightarrow>
                          Inr (Some \<lparr>shape_type = type, shape_confidence = conf,
                                     shape_boundingBox = box, shape_center = center,
                                     shape_area = pixelArea\<rparr>)))))"

text \<open>
  Step 3 of \<^verbatim>\<open>detectShapes\<close>: the loop over the components, with the array
  \<^verbatim>\<open>shapes\<close> as accumulator.
\<close>

fun analyzeComponents ::
  "nat \<Rightarrow> point list list \<Rightarrow> real \<Rightarrow> real \<Rightarrow> DetectedShape list
     \<Rightarrow> js_error + DetectedShape list" where
  "analyzeComponents frames [] width height shapes = Inr shapes"
| "analyzeComponents frames (component # components) width height shapes =
     (if length component < 50 then analyzeComponents frames components width height shapes
      else case analyzeComponent frames component width height of
             Inl e \<Rightarrow> Inl e
           | Inr None \<Rightarrow> analyzeComponents frames components width height shapes
           | Inr (Some shape) \<Rightarrow>
               analyzeComponents frames components width height (shapes @ [shape]))"

section \<open>Detection pipeline\<close>

text \<open>
  \<^verbatim>\<open>createBinaryMask\<close>: the pixel buffer is a list of bytes, four per pixel. A pixel is
  foreground when its alpha is above 200 and the mean of its three colours is below 128;
  a read beyond the buffer gives \<^verbatim>\<open>undefined\<close>, for which the test on alpha is false.
\<close>

definition createBinaryMask :: "nat list \<Rightarrow> nat \<Rightarrow> nat \<Rightarrow> bool list" where
  "createBinaryMask data width height =
     map (\<lambda>i. 4 * i + 3 < length data \<and> 200 < data ! (4 * i + 3) \<and>
              real (data ! (4 * i) + data ! (4 * i + 1) + data ! (4 * i + 2)) / 3 < 128)
       [0..<width * height]"

text \<open>
  \<^verbatim>\<open>floodFill\<close>. The stack holds coordinates that may leave the image, so they are
  integers; its top is the head of the list. The array \<^verbatim>\<open>labeled\<close> is the set of the
  indices it marks: it has one cell for each index below \<open>width * height\<close>, and only such
  indices are written. The test \<^verbatim>\<open>binary[idx] === 0\<close> is false for a read beyond the mask.
  The loop ends because every round either shortens the stack or labels a new pixel.
\<close>

type_synonym pixel = "int \<times> int"

definition pixelIndex :: "nat \<Rightarrow> int \<Rightarrow> int \<Rightarrow> nat" where
  "pixelIndex width x y = nat (y * int width + x)"

lemma pixelIndex_less:
  assumes "0 \<le> x" "x < int width" "0 \<le> y" "y < int height"
  shows "pixelIndex width x y < width * height"
proof -
  have "y + 1 \<le> int height" using assms by simp
  then have "(y + 1) * int width \<le> int height * int width"
    by (intro mult_right_mono) simp_all
  then have "y * int width + x < int height * int width"
    using assms by (simp add: algebra_simps)
  moreover have "0 \<le> y * int width + x" using assms by simp
  ultimately show ?thesis
    unfolding pixelIndex_def by (simp add: nat_less_iff mult.commute)
qed

function floodLoop ::
  "bool list \<Rightarrow> nat \<Rightarrow> nat \<Rightarrow> nat set \<Rightarrow> pixel list \<Rightarrow> point list \<Rightarrow> nat set \<times> point list" where
  "floodLoop binary width height labeled [] component = (labeled, component)"
| "floodLoop binary width height labeled ((x, y) # stack) component =
     (if x < 0 \<or> int width \<le> x \<or> y < 0 \<or> int height \<le> y
      then floodLoop binary width height labeled stack component
      else if (pixelIndex width x y < length binary \<and> \<not> binary ! pixelIndex width x y) \<or>
              pixelIndex width x y \<in> labeled
      then floodLoop binary width height labeled stack component
      else floodLoop binary width height (insert (pixelIndex width x y) labeled)
             ((x, y - 1) # (x, y + 1) # (x - 1, y) # (x + 1, y) # stack)
             (component @ [Point (real_of_int x) (real_of_int y)]))"
  by pat_completeness auto
termination
proof (relation "measure (\<lambda>(binary, width, height, labeled, stack, component).
    5 * card ({..<width * height} - labeled) + length stack)")
  show "wf (measure (\<lambda>(binary, width, height, labeled, stack, component).
    5 * card ({..<width * height} - labeled) + length stack))" by simp
next
  fix binary :: "bool list" and width height :: nat and labeled :: "nat set"
    and x y :: int and stack :: "pixel list" and component :: "point list"
  assume inside: "\<not> (x < 0 \<or> int width \<le> x \<or> y < 0 \<or> int height \<le> y)"
    and fresh: "\<not> ((pixelIndex width x y < length binary \<and> \<not> binary ! pixelIndex width x y) \<or>
                  pixelIndex width x y \<in> labeled)"
  have lt: "pixelIndex width x y < width * height"
    using inside by (intro pixelIndex_less) simp_all
  have "{..<width * height} - insert (pixelIndex width x y) labeled
      \<subset> {..<width * height} - labeled"
    using lt fresh by auto
  then have "card ({..<width * height} - insert (pixelIndex width x y) labeled)
      < card ({..<width * height} - labeled)"
    by (intro psubset_card_mono) simp_all
  then show "((binary, width, height, insert (pixelIndex width x y) labeled,
        (x, y - 1) # (x, y + 1) # (x - 1, y) # (x + 1, y) # stack,
        component @ [Point (real_of_int x) (real_of_int y)]),
       binary, width, height, labeled, (x, y) # stack, component)
      \<in> measure (\<lambda>(binary, width, height, labeled, stack, component).
          5 * card ({..<width * height} - labeled) + length stack)"
    by simp
qed simp_all

declare floodLoop.simps [simp del]

definition floodFill ::
  "bool list \<Rightarrow> nat set \<Rightarrow> int \<Rightarrow> int \<Rightarrow> nat \<Rightarrow> nat \<Rightarrow> nat set \<times> point list" where
  "floodFill binary labeled startX startY width height =
     floodLoop binary width height labeled [(startX, startY)] []"

text \<open>
  \<^verbatim>\<open>findConnectedComponents\<close>: the two nested loops visit the pixels row by row;
  \<open>scanPixel\<close> is the body of the inner loop, with \<^verbatim>\<open>labeled\<close> and \<^verbatim>\<open>components\<close> as state.
\<close>

definition scanPixel ::
  "bool list \<Rightarrow> nat \<Rightarrow> nat \<Rightarrow> nat \<times> nat \<Rightarrow> nat set \<times> point list list
     \<Rightarrow> nat set \<times> point list list" where
  "scanPixel binary width height yx state =
     (let y = fst yx; x = snd yx; labeled = fst state; components = snd state;
          idx = y * width + x
      in if idx < length binary \<and> binary ! idx \<and> idx \<notin> labeled then
           (let filled = floodFill binary labeled (int x) (int y) width height
            in (fst filled,
                if snd filled \<noteq> [] then components @ [snd filled] else components))
         else state)"

definition findConnectedComponents :: "bool list \<Rightarrow> nat \<Rightarrow> nat \<Rightarrow> point list list" where
  "findConnectedComponents binary width height =
     snd (fold (scanPixel binary width height) (List.product [0..<height] [0..<width]) ({}, []))"

text \<open>
  \<^verbatim>\<open>detectShapes\<close>. The result carries the shapes and the size of the image; the elapsed
  time, read from the clock, is left out. The parameter \<open>frames\<close> is the room that the
  call stack has left for \<^verbatim>\<open>douglasPeucker\<close> when a component is analysed.
\<close>

record DetectionResult =
  result_shapes :: "DetectedShape list"
  result_imageWidth :: nat
  result_imageHeight :: nat

definition detectShapes ::
  "nat \<Rightarrow> nat list \<Rightarrow> nat \<Rightarrow> nat \<Rightarrow> js_error + DetectionResult" where
  "detectShapes frames data width height =
     (let binary = createBinaryMask data width height;
          components = findConnectedComponents binary width height
      in case analyzeComponents frames components (real width) (real height) [] of
           Inl e \<Rightarrow> Inl e
         | Inr found \<Rightarrow>
             Inr \<lparr>result_shapes = found, result_imageWidth = width,
                  result_imageHeight = height\<rparr>)"

text \<open>
  The invariant of the flood fill: the pixels collected so far are pairwise different and
  each of them is labelled.
\<close>

definition indexed :: "nat \<Rightarrow> nat set \<Rightarrow> point list \<Rightarrow> bool" where
  "indexed width labeled component \<longleftrightarrow>
     distinct component \<and>
     (\<forall>p\<in>set component. \<exists>x y. p = Point (real_of_int x) (real_of_int y) \<and>
        pixelIndex width x y \<in> labeled)"

text \<open>
  Names for what \<^verbatim>\<open>analyzeComponent\<close> computes on the way: the contour it selects, the
  classification it obtains, whether the component is rejected, and what the loop appends
  for it.
\<close>

definition contourOf :: "point list \<Rightarrow> real \<Rightarrow> real \<Rightarrow> point list" where
  "contourOf component width height =
     selectContour (extractBoundary component width height)
       (convexHull (extractBoundary component width height))
       (extentOf (real (length component)) (boundingBoxOf component width height))"

definition classificationOf ::
  "nat \<Rightarrow> point list \<Rightarrow> real \<Rightarrow> real \<Rightarrow> (shapeType \<times> jsnum) option" where
  "classificationOf frames component width height =
     (case approximate frames (contourOf component width height)
             (calculatePerimeter (contourOf component width height))
             (extentOf (real (length component)) (boundingBoxOf component width height)) of
        Inl e \<Rightarrow> None
      | Inr approx \<Rightarrow>
          classifyShape approx (convexHull (extractBoundary component width height))
            (boundingBoxOf component width height) (centerOf component width height)
            (real (length component)) (calculatePerimeter (contourOf component width height)))"

definition rejected :: "nat \<Rightarrow> point list \<Rightarrow> real \<Rightarrow> real \<Rightarrow> bool" where
  "rejected frames component width height \<longleftrightarrow>
     length component < 50 \<or>
     bbox_width (boundingBoxOf component width height) < 10 \<or>
     bbox_height (boundingBoxOf component width height) < 10 \<or>
     length (extractBoundary component width height) < 8 \<or>
     classificationOf frames component width height = None"

definition accepted :: "nat \<Rightarrow> point list \<Rightarrow> real \<Rightarrow> real \<Rightarrow> DetectedShape option" where
  "accepted frames component width height =
     (if length component < 50 then None
      else case analyzeComponent frames component width height of
             Inr (Some shape) \<Rightarrow> Some shape | _ \<Rightarrow> None)"

text \<open>
  A concrete component: in an image 10 pixels wide and 11 high, rows 0 to 9 are dark and
  row 10 is light. The flood fill from \<open>(0, 0)\<close> runs down column 0, up column 1, and so
  on. Only the pixels of row 9 have a neighbour inside the image that is not in the
  component.
\<close>

definition downward :: "real list" where
  "downward = [0, 1, 2, 3, 4, 5, 6, 7, 8, 9]"

definition block :: "point list" where
  "block = concat (map (\<lambda>(x, ys). map (Point x) ys)
     [(0, downward), (1, rev downward), (2, downward), (3, rev downward), (4, downward),
      (5, rev downward), (6, downward), (7, rev downward), (8, downward), (9, rev downward)])"

definition blockRow :: "point list" where
  "blockRow = map (\<lambda>x. Point x 9) downward"

definition blockShape :: DetectedShape where
  "blockShape =
     \<lparr>shape_type = Rectangle, shape_confidence = Fin 0.60,
      shape_boundingBox = \<lparr>bbox_x = 0, bbox_y = 0, bbox_width = 10, bbox_height = 10\<rparr>,
      shape_center = Point (9 / 2) (9 / 2), shape_area = 100\<rparr>"

text \<open>
  The image of the concrete component: 100 opaque black pixels, then the 10 opaque white
  pixels of row 10; its mask, and the result of the detection.
\<close>

definition blockMask :: "bool list" where
  "blockMask = replicate 100 True @ replicate 10 False"

definition blockImage :: "nat list" where
  "blockImage =
     concat (replicate 100 [0, 0, 0, 255]) @ concat (replicate 10 [255, 255, 255, 255])"

definition blockResult :: DetectionResult where
  "blockResult = \<lparr>result_shapes = [blockShape], result_imageWidth = 10, result_imageHeight = 11\<rparr>"

text \<open>
  A second image, 11 pixels wide and 11 high, with a dark square of 10 by 10 pixels in
  its top left corner. The flood fill collects the same pixels in the same order; now the
  pixels of column 9 are on the boundary as well.
\<close>

definition cornerMask :: "bool list" where
  "cornerMask = map (\<lambda>i. i mod 11 < 10 \<and> i div 11 < 10) [0..<121]"

definition cornerBoundary :: "point list" where
  "cornerBoundary = map (\<lambda>x. Point x 9) downward @ map (Point 9) (tl (rev downward))"

text \<open>
  A third image, 10 pixels wide and 12 high: rows 0 to 10 are dark except the pixel
  \<open>(9, 10)\<close>, and row 11 is light. Its component is not symmetric. The flood fill runs down
  column 0, up column 1, and so on, and reaches column 9 from \<open>(8, 9)\<close>; the boundary is
  row 10 and the pixel above the missing one.
\<close>

definition downwardTall :: "real list" where
  "downwardTall = [0, 1, 2, 3, 4, 5, 6, 7, 8, 9, 10]"

definition notch :: "point list" where
  "notch = concat (map (\<lambda>(x, ys). map (Point x) ys)
     [(0, downwardTall), (1, rev downwardTall), (2, downwardTall), (3, rev downwardTall),
      (4, downwardTall), (5, rev downwardTall), (6, downwardTall), (7, rev downwardTall),
      (8, downwardTall), (9, rev downward)])"

definition notchRow :: "point list" where
  "notchRow = map (\<lambda>x. Point x 10) (butlast downward) @ [Point 9 9]"

definition notchShape :: DetectedShape where
  "notchShape =
     \<lparr>shape_type = Circle, shape_confidence = Fin 0.98,
      shape_boundingBox = \<lparr>bbox_x = 0, bbox_y = 0, bbox_width = 10, bbox_height = 11\<rparr>,
      shape_center = Point (9 / 2) 5, shape_area = 109\<rparr>"

definition notchMask :: "bool list" where
  "notchMask = replicate 109 True @ replicate 11 False"

definition notchImage :: "nat list" where
  "notchImage =
     concat (replicate 109 [0, 0, 0, 255]) @ concat (replicate 11 [255, 255, 255, 255])"

definition notchResult :: DetectionResult where
  "notchResult = \<lparr>result_shapes = [notchShape], result_imageWidth = 10, result_imageHeight = 12\<rparr>"

text \<open>
  The mass centroid of a list of pixels, the mean of their coordinates. The detector does
  not compute it; it is the point with which the returned centre is compared.
\<close>

definition centroid :: "point list \<Rightarrow> point" where
  "centroid pixels =
     Point (sum_list (map px pixels) / real (length pixels))
           (sum_list (map py pixels) / real (length pixels))"

section \<open>Properties of the simplifier\<close>

lemma farthest_index_pos:
  "0 < snd acc \<Longrightarrow> 0 < i \<Longrightarrow> 0 < snd (farthest a b ps i acc)"
  by (induction ps arbitrary: i acc) auto

lemma farthest_index_zero:
  "snd acc = 0 \<Longrightarrow> 0 < i \<Longrightarrow> snd (farthest a b ps i acc) = 0 \<Longrightarrow>
     fst (farthest a b ps i acc) = fst acc"
proof (induction ps arbitrary: i acc)
  case Nil
  then show ?case by simp
next
  case (Cons p ps)
  show ?case
  proof (cases "js_gt (perpendicularDistance p a b) (fst acc)")
    case True
    have "0 < snd (farthest a b ps (Suc i) (perpendicularDistance p a b, i))"
      using Cons.prems(2) by (intro farthest_index_pos) simp_all
    with True Cons.prems(3) show ?thesis by simp
  next
    case False
    with Cons show ?thesis by simp
  qed
qed

lemma dp_scan_zero: "snd (dp_scan ps) = 0 \<Longrightarrow> fst (dp_scan ps) = Fin 0"
  unfolding dp_scan_def
  using farthest_index_zero [of "(Fin 0, 0)" 1 "hd ps" "last ps" "butlast (tl ps)"] by simp

lemma dp_scan_split_pos:
  assumes "js_gt (fst (dp_scan ps)) eps" "\<not> js_lt eps (Fin 0)"
  shows "snd (dp_scan ps) \<noteq> 0"
proof
  assume "snd (dp_scan ps) = 0"
  then have "fst (dp_scan ps) = Fin 0" by (rule dp_scan_zero)
  with assms show False by (simp add: js_gt_def)
qed

lemma subseq_butlast: "subseq xs ys \<Longrightarrow> subseq (butlast xs) (butlast ys)"
  by (induction rule: list_emb.induct) (auto split: if_splits)

lemma subseq_ends: "2 \<le> length ps \<Longrightarrow> subseq [hd ps, last ps] ps"
proof -
  assume "2 \<le> length ps"
  then obtain a rest where p: "ps = a # rest" "rest \<noteq> []"
    by (cases ps) fastforce+
  then have "last rest \<in> set rest" by simp
  then have "subseq [last rest] rest" by (simp add: subseq_singleton_left)
  then show ?thesis using p by simp
qed

text \<open>The three ways in which a call with room on the stack ends.\<close>

lemma douglasPeucker_short:
  "length ps < 3 \<Longrightarrow> douglasPeucker (Suc frames) ps eps = Inr ps"
  by (simp add: douglasPeucker.simps)

lemma douglasPeucker_flat:
  "\<not> length ps < 3 \<Longrightarrow> \<not> js_gt (fst (dp_scan ps)) eps \<Longrightarrow>
     douglasPeucker (Suc frames) ps eps = Inr [hd ps, last ps]"
  by (simp add: douglasPeucker.simps)

lemma douglasPeucker_split:
  assumes "\<not> length ps < 3" "js_gt (fst (dp_scan ps)) eps"
    and "douglasPeucker (Suc frames) ps eps = Inr out"
  shows "\<exists>left right.
           douglasPeucker frames (take (snd (dp_scan ps) + 1) ps) eps = Inr left \<and>
           douglasPeucker frames (drop (snd (dp_scan ps)) ps) eps = Inr right \<and>
           out = butlast left @ right"
  using assms by (auto simp: douglasPeucker.simps split: sum.splits)

lemma dp_partial:
  "douglasPeucker frames ps eps = Inr out \<Longrightarrow>
     subseq out ps \<and> (ps \<noteq> [] \<longrightarrow> out \<noteq> [] \<and> hd out = hd ps \<and> last out = last ps)"
proof (induction frames arbitrary: ps out)
  case 0
  then show ?case by (simp add: douglasPeucker.simps)
next
  case (Suc frames)
  show ?case
  proof (cases "length ps < 3")
    case True
    with Suc.prems have "out = ps" by (simp add: douglasPeucker_short)
    then show ?thesis by simp
  next
    case long: False
    show ?thesis
    proof (cases "js_gt (fst (dp_scan ps)) eps")
      case False
      with long Suc.prems have "out = [hd ps, last ps]" by (simp add: douglasPeucker_flat)
      moreover have "subseq [hd ps, last ps] ps" using long by (intro subseq_ends) simp
      ultimately show ?thesis by simp
    next
      case True
      define k where "k = snd (dp_scan ps)"
      have klt: "Suc k < length ps" unfolding k_def using long by (intro dp_scan_index_lt) simp
      from douglasPeucker_split [OF long True Suc.prems]
      obtain left right where left: "douglasPeucker frames (take (k + 1) ps) eps = Inr left"
        and right: "douglasPeucker frames (drop k ps) eps = Inr right"
        and out: "out = butlast left @ right"
        unfolding k_def by blast
      from Suc.IH [OF left] klt
      have l: "subseq left (take (k + 1) ps)" "left \<noteq> []" "hd left = hd (take (k + 1) ps)"
        "last left = last (take (k + 1) ps)"
        by auto
      from Suc.IH [OF right] klt
      have r: "subseq right (drop k ps)" "right \<noteq> []" "hd right = hd (drop k ps)"
        "last right = last (drop k ps)"
        by auto
      have "subseq (butlast left) (butlast (take (k + 1) ps))"
        using l(1) by (rule subseq_butlast)
      moreover have "butlast (take (k + 1) ps) = take k ps"
        using klt by (simp add: butlast_take)
      ultimately have "subseq (butlast left) (take k ps)" by simp
      from list_emb_append_mono [OF this r(1)]
      have sub: "subseq (butlast left @ right) ps" by simp
      have hdl: "hd left = hd ps" using l(3) by simp
      have lastl: "last left = ps ! k" using l(4) klt
        by (simp add: take_Suc_conv_app_nth)
      have hdr: "hd right = ps ! k" using r(3) klt by (simp add: hd_drop_conv_nth)
      have lastr: "last right = last ps" using r(4) klt by simp
      have "hd (butlast left @ right) = hd ps"
      proof (cases "butlast left = []")
        case True
        then have "left = [hd left]" using l(2) by (cases left) (auto split: if_splits)
        then have "last left = hd left" by (metis last.simps)
        with True hdl lastl hdr show ?thesis by simp
      next
        case False
        then have "hd (butlast left) = hd left" by (cases left) (auto split: if_splits)
        with False hdl show ?thesis by simp
      qed
      with out sub r(2) lastr show ?thesis by simp
    qed
  qed
qed

lemma dp_returns_length:
  "\<not> js_lt eps (Fin 0) \<Longrightarrow> length ps \<le> Suc frames \<Longrightarrow> 0 < frames \<Longrightarrow>
     \<exists>out. douglasPeucker frames ps eps = Inr out"
proof (induction frames arbitrary: ps)
  case 0
  then show ?case by simp
next
  case (Suc frames)
  show ?case
  proof (cases "length ps < 3")
    case True
    then show ?thesis by (simp add: douglasPeucker_short)
  next
    case long: False
    show ?thesis
    proof (cases "js_gt (fst (dp_scan ps)) eps")
      case False
      with long show ?thesis by (simp add: douglasPeucker_flat)
    next
      case True
      define k where "k = snd (dp_scan ps)"
      have k0: "k \<noteq> 0" unfolding k_def using True Suc.prems(1) by (rule dp_scan_split_pos)
      have klt: "Suc k < length ps" unfolding k_def using long by (intro dp_scan_index_lt) simp
      have room: "0 < frames" using long Suc.prems(2) by simp
      have "length (take (k + 1) ps) \<le> Suc frames" using klt Suc.prems(2) by simp
      from Suc.IH [OF Suc.prems(1) this room]
      obtain left where left: "douglasPeucker frames (take (k + 1) ps) eps = Inr left" by blast
      have "length (drop k ps) \<le> Suc frames" using k0 klt Suc.prems(2) by simp
      from Suc.IH [OF Suc.prems(1) this room]
      obtain right where right: "douglasPeucker frames (drop k ps) eps = Inr right" by blast
      show ?thesis
        using long True left right unfolding k_def by (simp add: douglasPeucker.simps)
    qed
  qed
qed

lemma js_error_only: "(e :: js_error) = RangeError"
  by (cases e) simp

text \<open>With a negative tolerance a run on one line is never left.\<close>

lemma dp_negative_loops:
  "douglasPeucker frames [Point 0 0, Point 1 0, Point 2 0] (Fin (- 1)) = Inl RangeError"
proof (induction frames)
  case 0
  show ?case by (simp add: douglasPeucker.simps)
next
  case (Suc frames)
  have scan: "dp_scan [Point 0 0, Point 1 0, Point 2 0] = (Fin 0, 0)"
    by (simp add: dp_scan_def perpendicularDistance_def js_gt_def)
  show ?case
    using Suc
    by (auto simp: douglasPeucker.simps scan js_gt_def split: sum.splits intro: js_error_only)
qed















lemma farthest_fst_mem:
  "fst (farthest a b ps i acc) = fst acc \<or>
   (\<exists>p\<in>set ps. fst (farthest a b ps i acc) = perpendicularDistance p a b)"
proof (induction ps arbitrary: i acc)
  case Nil
  then show ?case by simp
next
  case (Cons q ps)
  define acc' where "acc' = (if js_gt (perpendicularDistance q a b) (fst acc)
                             then (perpendicularDistance q a b, i) else acc)"
  have unfold: "farthest a b (q # ps) i acc = farthest a b ps (Suc i) acc'"
    by (simp add: acc'_def)
  have "fst acc' = fst acc \<or> fst acc' = perpendicularDistance q a b"
    by (simp add: acc'_def)
  with Cons.IH [of "Suc i" acc'] show ?case
    unfolding unfold by auto
qed






lemma segment_positive: "a \<noteq> b \<Longrightarrow> 0 < segmentLength a b"
proof -
  assume "a \<noteq> b"
  then have "px b - px a \<noteq> 0 \<or> py b - py a \<noteq> 0" by (cases a; cases b) auto
  then have "0 < (px b - px a)\<^sup>2 + (py b - py a)\<^sup>2"
    by (metis add.commute add_pos_nonneg zero_le_power2 zero_less_power2)
  then show ?thesis by (simp add: segmentLength_def)
qed

lemma perpendicularDistance_value:
  assumes "a \<noteq> b"
  shows "perpendicularDistance p a b = Fin (offLine a b p)"
proof -
  have "0 < sqrt ((px b - px a) * (px b - px a) + (py b - py a) * (py b - py a))"
    using segment_positive [OF assms] by (simp only: segmentLength_def power2_eq_square)
  then have den: "sqrt ((px b - px a) * (px b - px a) + (py b - py a) * (py b - py a)) \<noteq> 0"
    by (rule less_imp_neq [THEN not_sym])
  have num: "\<bar>(py b - py a) * px p - (px b - px a) * py p + px b * py a - py b * px a\<bar>
      = \<bar>crossProduct a b p\<bar>"
    by (simp add: crossProduct_def algebra_simps)
  show ?thesis using den
    by (simp add: perpendicularDistance_def Let_def num offLine_def segmentLength_def
        power2_eq_square del: real_sqrt_eq_zero_cancel_iff)
qed

lemma offLine_ends: "offLine a b a = 0" "offLine a b b = 0"
  by (simp_all add: offLine_def crossProduct_def)



text \<open>
  The scan returns the first interior point of greatest distance: every point before it
  is strictly nearer to the line, every point after it is not farther.
\<close>

lemma farthest_first:
  assumes "a \<noteq> b"
  shows "\<exists>m. fst (farthest a b ps i (Fin m0, k0)) = Fin m \<and> m0 \<le> m \<and>
           (\<forall>p\<in>set ps. offLine a b p \<le> m) \<and>
           (m = m0 \<and> snd (farthest a b ps i (Fin m0, k0)) = k0 \<or>
            m0 < m \<and> (\<exists>j<length ps. snd (farthest a b ps i (Fin m0, k0)) = i + j \<and>
               offLine a b (ps ! j) = m \<and> (\<forall>j'<j. offLine a b (ps ! j') < m)))"
proof (induction ps arbitrary: i m0 k0)
  case Nil
  then show ?case by simp
next
  case (Cons q ps)
  have d: "perpendicularDistance q a b = Fin (offLine a b q)"
    using assms by (rule perpendicularDistance_value)
  show ?case
  proof (cases "m0 < offLine a b q")
    case True
    then have step: "farthest a b (q # ps) i (Fin m0, k0)
        = farthest a b ps (Suc i) (Fin (offLine a b q), i)"
      by (simp add: d js_gt_def)
    from Cons.IH [of "Suc i" "offLine a b q" i]
    obtain m where m: "fst (farthest a b ps (Suc i) (Fin (offLine a b q), i)) = Fin m"
      "offLine a b q \<le> m" "\<forall>p\<in>set ps. offLine a b p \<le> m"
      and alt: "m = offLine a b q \<and> snd (farthest a b ps (Suc i) (Fin (offLine a b q), i)) = i \<or>
        offLine a b q < m \<and> (\<exists>j<length ps.
          snd (farthest a b ps (Suc i) (Fin (offLine a b q), i)) = Suc i + j \<and>
          offLine a b (ps ! j) = m \<and> (\<forall>j'<j. offLine a b (ps ! j') < m))"
      by blast
    have lt: "m0 < m" using True m(2) by simp
    from alt have "\<exists>j<length (q # ps). snd (farthest a b ps (Suc i) (Fin (offLine a b q), i)) = i + j \<and>
        offLine a b ((q # ps) ! j) = m \<and> (\<forall>j'<j. offLine a b ((q # ps) ! j') < m)"
    proof
      assume "m = offLine a b q \<and> snd (farthest a b ps (Suc i) (Fin (offLine a b q), i)) = i"
      then show ?thesis by (intro exI [of _ 0]) simp
    next
      assume "offLine a b q < m \<and> (\<exists>j<length ps.
          snd (farthest a b ps (Suc i) (Fin (offLine a b q), i)) = Suc i + j \<and>
          offLine a b (ps ! j) = m \<and> (\<forall>j'<j. offLine a b (ps ! j') < m))"
      then obtain j where j: "offLine a b q < m" "j < length ps"
        "snd (farthest a b ps (Suc i) (Fin (offLine a b q), i)) = Suc i + j"
        "offLine a b (ps ! j) = m" "\<forall>j'<j. offLine a b (ps ! j') < m"
        by blast
      have "\<forall>j'<Suc j. offLine a b ((q # ps) ! j') < m"
        using j(1,5) by (auto simp: less_Suc_eq_0_disj)
      with j show ?thesis by (intro exI [of _ "Suc j"]) simp
    qed
    with m lt show ?thesis unfolding step by auto
  next
    case False
    then have step: "farthest a b (q # ps) i (Fin m0, k0) = farthest a b ps (Suc i) (Fin m0, k0)"
      by (simp add: d js_gt_def)
    from Cons.IH [of "Suc i" m0 k0]
    obtain m where m: "fst (farthest a b ps (Suc i) (Fin m0, k0)) = Fin m"
      "m0 \<le> m" "\<forall>p\<in>set ps. offLine a b p \<le> m"
      and alt: "m = m0 \<and> snd (farthest a b ps (Suc i) (Fin m0, k0)) = k0 \<or>
        m0 < m \<and> (\<exists>j<length ps.
          snd (farthest a b ps (Suc i) (Fin m0, k0)) = Suc i + j \<and>
          offLine a b (ps ! j) = m \<and> (\<forall>j'<j. offLine a b (ps ! j') < m))"
      by blast
    have q: "offLine a b q \<le> m" using False m(2) by simp
    from alt have "m = m0 \<and> snd (farthest a b ps (Suc i) (Fin m0, k0)) = k0 \<or>
        m0 < m \<and> (\<exists>j<length (q # ps). snd (farthest a b ps (Suc i) (Fin m0, k0)) = i + j \<and>
          offLine a b ((q # ps) ! j) = m \<and> (\<forall>j'<j. offLine a b ((q # ps) ! j') < m))"
    proof
      assume "m = m0 \<and> snd (farthest a b ps (Suc i) (Fin m0, k0)) = k0"
      then show ?thesis by simp
    next
      assume "m0 < m \<and> (\<exists>j<length ps.
          snd (farthest a b ps (Suc i) (Fin m0, k0)) = Suc i + j \<and>
          offLine a b (ps ! j) = m \<and> (\<forall>j'<j. offLine a b (ps ! j') < m))"
      then obtain j where j: "m0 < m" "j < length ps"
        "snd (farthest a b ps (Suc i) (Fin m0, k0)) = Suc i + j"
        "offLine a b (ps ! j) = m" "\<forall>j'<j. offLine a b (ps ! j') < m"
        by blast
      have "offLine a b q < m" using False j(1) by simp
      then have "\<forall>j'<Suc j. offLine a b ((q # ps) ! j') < m"
        using j(5) by (auto simp: less_Suc_eq_0_disj)
      with j have "\<exists>j<length (q # ps). snd (farthest a b ps (Suc i) (Fin m0, k0)) = i + j \<and>
          offLine a b ((q # ps) ! j) = m \<and> (\<forall>j'<j. offLine a b ((q # ps) ! j') < m)"
        by (intro exI [of _ "Suc j"]) simp
      with j(1) show ?thesis by simp
    qed
    with m q show ?thesis unfolding step by auto
  qed
qed

lemma split_ends_differ:
  assumes "js_gt (fst (dp_scan ps)) eps" "\<not> js_lt eps (Fin 0)"
  shows "hd ps \<noteq> last ps"
proof
  assume same: "hd ps = last ps"
  from farthest_fst_mem [of "hd ps" "last ps" "butlast (tl ps)" 1 "(Fin 0, 0)"]
  consider "fst (dp_scan ps) = Fin 0"
    | p where "fst (dp_scan ps) = perpendicularDistance p (hd ps) (last ps)"
    unfolding dp_scan_def by auto
  then show False
  proof cases
    case 1
    with assms show False by (simp add: js_gt_def)
  next
    case 2
    with same have "fst (dp_scan ps) = NaN" by (simp add: perpendicularDistance_def)
    with assms(1) show False by (cases eps) (simp_all add: js_gt_def)
  qed
qed

lemma interior_nth:
  "j < length (butlast (tl ps)) \<Longrightarrow> butlast (tl ps) ! j = ps ! Suc j"
  by (simp add: nth_butlast nth_tl)

lemma dp_scan_first:
  assumes long: "3 \<le> length ps" and split: "js_gt (fst (dp_scan ps)) eps"
    and nonneg: "\<not> js_lt eps (Fin 0)"
  shows "fst (dp_scan ps) = Fin (offLine (hd ps) (last ps) (ps ! snd (dp_scan ps))) \<and>
         0 < offLine (hd ps) (last ps) (ps ! snd (dp_scan ps)) \<and>
         (\<forall>i<snd (dp_scan ps).
            offLine (hd ps) (last ps) (ps ! i) < offLine (hd ps) (last ps) (ps ! snd (dp_scan ps))) \<and>
         (\<forall>i<length ps.
            offLine (hd ps) (last ps) (ps ! i) \<le> offLine (hd ps) (last ps) (ps ! snd (dp_scan ps)))"
proof -
  define a where "a = hd ps"
  define b where "b = last ps"
  define inner where "inner = butlast (tl ps)"
  define k where "k = snd (dp_scan ps)"
  have ab: "a \<noteq> b" unfolding a_def b_def using split nonneg by (rule split_ends_differ)
  have scan: "dp_scan ps = farthest a b inner 1 (Fin 0, 0)"
    by (simp add: dp_scan_def a_def b_def inner_def)
  from farthest_first [OF ab, of inner 1 0 0]
  obtain m where m: "fst (dp_scan ps) = Fin m" "\<forall>p\<in>set inner. offLine a b p \<le> m"
    and alt: "m = 0 \<and> k = 0 \<or>
      0 < m \<and> (\<exists>j<length inner. k = 1 + j \<and> offLine a b (inner ! j) = m \<and>
        (\<forall>j'<j. offLine a b (inner ! j') < m))"
    unfolding scan k_def by auto
  have pos: "0 < m"
    using split nonneg m(1) by (cases eps) (auto simp: js_gt_def)
  with alt obtain j where j: "j < length inner" "k = Suc j" "offLine a b (inner ! j) = m"
    "\<forall>j'<j. offLine a b (inner ! j') < m"
    by auto
  have at: "offLine a b (ps ! k) = m"
    using j(1,2,3) interior_nth [of j ps] by (simp add: inner_def)
  have len: "length inner = length ps - 2" by (simp add: inner_def)
  have first: "ps ! 0 = a" unfolding a_def using long by (cases ps) auto
  have final: "ps ! (length ps - 1) = b" unfolding b_def using long
    by (cases ps) (auto simp: last_conv_nth)
  have before: "offLine a b (ps ! i) < m" if "i < k" for i
  proof (cases i)
    case 0
    with first pos show ?thesis by (simp add: offLine_ends)
  next
    case (Suc i')
    with that j(2) have lt: "i' < j" by simp
    with j(1) have "inner ! i' = ps ! Suc i'"
      unfolding inner_def by (intro interior_nth) simp
    with j(4) lt Suc show ?thesis by auto
  qed
  have all: "offLine a b (ps ! i) \<le> m" if "i < length ps" for i
  proof -
    have "i = 0 \<or> i = length ps - 1 \<or> (i = Suc (i - 1) \<and> i - 1 < length ps - 2)"
      using that by arith
    then consider "i = 0" | "i = length ps - 1" | i' where "i = Suc i'" "i' < length inner"
      using len by auto
    then show ?thesis
    proof cases
      case 1
      with first pos show ?thesis by (simp add: offLine_ends)
    next
      case 2
      with final pos show ?thesis by (simp add: offLine_ends)
    next
      case 3
      then have "inner ! i' = ps ! i" unfolding inner_def by (simp add: interior_nth)
      moreover have "inner ! i' \<in> set inner" using 3(2) by simp
      ultimately show ?thesis using m(2) by auto
    qed
  qed
  show ?thesis
    using m(1) at pos before all unfolding a_def b_def k_def by simp
qed







lemma segmentLength_nonneg: "0 \<le> segmentLength p q"
  by (simp add: segmentLength_def)

lemma segmentLength_sym: "segmentLength p q = segmentLength q p"
  by (simp add: segmentLength_def power2_commute)

lemma segmentLength_triangle: "segmentLength p r \<le> segmentLength p q + segmentLength q r"
  using real_sqrt_sum_squares_triangle_ineq
    [of "px q - px p" "px r - px q" "py q - py p" "py r - py q"]
  by (simp add: segmentLength_def)

lemma cross_bound:
  "\<bar>u1 * v2 - u2 * v1\<bar> \<le> sqrt (u1\<^sup>2 + u2\<^sup>2) * sqrt (v1\<^sup>2 + v2\<^sup>2)"
proof -
  have "(u1\<^sup>2 + u2\<^sup>2) * (v1\<^sup>2 + v2\<^sup>2) - (u1 * v2 - u2 * v1)\<^sup>2 = (u1 * v1 + u2 * v2)\<^sup>2"
    by (simp add: power2_eq_square algebra_simps)
  moreover have "0 \<le> (u1 * v1 + u2 * v2)\<^sup>2" by simp
  ultimately have "(u1 * v2 - u2 * v1)\<^sup>2 \<le> (u1\<^sup>2 + u2\<^sup>2) * (v1\<^sup>2 + v2\<^sup>2)" by linarith
  then have "sqrt ((u1 * v2 - u2 * v1)\<^sup>2) \<le> sqrt ((u1\<^sup>2 + u2\<^sup>2) * (v1\<^sup>2 + v2\<^sup>2))"
    by (rule real_sqrt_le_mono)
  then show ?thesis by (simp add: real_sqrt_mult)
qed

text \<open>A point is no farther from a line than from either of the two points that span it.\<close>

lemma offLine_le_segment:
  assumes "a \<noteq> b"
  shows "offLine a b p \<le> segmentLength a p" "offLine a b p \<le> segmentLength p b"
proof -
  have l: "0 < segmentLength a b" using assms by (rule segment_positive)
  have "\<bar>crossProduct a b p\<bar> \<le> segmentLength a b * segmentLength a p"
    using cross_bound [of "px b - px a" "py p - py a" "py b - py a" "px p - px a"]
    by (simp add: crossProduct_def segmentLength_def)
  then show "offLine a b p \<le> segmentLength a p"
    using l by (simp add: offLine_def field_simps)
  have "crossProduct a b p = (px b - px a) * (py p - py b) - (py b - py a) * (px p - px b)"
    by (simp add: crossProduct_def algebra_simps)
  then have "\<bar>crossProduct a b p\<bar> \<le> segmentLength a b * segmentLength b p"
    using cross_bound [of "px b - px a" "py p - py b" "py b - py a" "px p - px b"]
    by (simp add: segmentLength_def)
  then show "offLine a b p \<le> segmentLength p b"
    using l by (simp add: offLine_def field_simps segmentLength_sym [of p b])
qed

lemma pathLength_simps:
  "pathLength [] = 0" "pathLength [a] = 0"
  "pathLength (a # b # rest) = segmentLength a b + pathLength (b # rest)"
  by (simp_all add: pathLength_def)

lemma pathLength_nonneg: "0 \<le> pathLength ps"
  by (induction ps rule: induct_list012) (simp_all add: pathLength_simps segmentLength_nonneg)

lemma pathLength_join: "pathLength (xs @ [m]) + pathLength (m # ys) = pathLength (xs @ m # ys)"
  by (induction xs rule: induct_list012) (simp_all add: pathLength_simps)

lemma chord_le_path: "ps \<noteq> [] \<Longrightarrow> segmentLength (hd ps) (last ps) \<le> pathLength ps"
proof (induction ps rule: induct_list012)
  case 1
  then show ?case by simp
next
  case (2 x)
  show ?case by (simp add: pathLength_simps segmentLength_def)
next
  case (3 x y zs)
  have "segmentLength x (last (y # zs)) \<le> segmentLength x y + segmentLength y (last (y # zs))"
    by (rule segmentLength_triangle)
  also have "\<dots> \<le> segmentLength x y + pathLength (y # zs)"
    using "3.IH"(2) by simp
  finally show ?case by (simp add: pathLength_simps)
qed

text \<open>
  A split shortens the line on both sides by more than the tolerance, so the nesting of
  the calls is bounded by the length of the line measured in tolerances.
\<close>

lemma split_shortens:
  assumes long: "3 \<le> length ps" and split: "js_gt (fst (dp_scan ps)) (Fin eps)"
    and nonneg: "0 \<le> eps"
  shows "pathLength (take (snd (dp_scan ps) + 1) ps) + eps < pathLength ps"
    and "pathLength (drop (snd (dp_scan ps)) ps) + eps < pathLength ps"
proof -
  define k where "k = snd (dp_scan ps)"
  define m where "m = offLine (hd ps) (last ps) (ps ! k)"
  have nn: "\<not> js_lt (Fin eps) (Fin 0)" using nonneg by simp
  have ab: "hd ps \<noteq> last ps" using split nn by (rule split_ends_differ)
  have klt: "Suc k < length ps" unfolding k_def using long by (intro dp_scan_index_lt) simp
  from dp_scan_first [OF long split nn]
  have "fst (dp_scan ps) = Fin m" unfolding m_def k_def by simp
  with split have far: "eps < m" by (simp add: js_gt_def)
  have t: "take (k + 1) ps = take k ps @ [ps ! k]"
    using klt by (simp add: take_Suc_conv_app_nth)
  have d: "drop k ps = ps ! k # drop (Suc k) ps"
    using klt by (simp add: Cons_nth_drop_Suc)
  have "pathLength (take k ps @ [ps ! k]) + pathLength (ps ! k # drop (Suc k) ps)
      = pathLength (take k ps @ ps ! k # drop (Suc k) ps)"
    by (rule pathLength_join)
  also have "take k ps @ ps ! k # drop (Suc k) ps = ps"
    using d by (metis append_take_drop_id)
  finally have sum: "pathLength (take (k + 1) ps) + pathLength (drop k ps) = pathLength ps"
    using t d by simp
  have "hd (take (k + 1) ps) = hd ps" by simp
  moreover have "last (take (k + 1) ps) = ps ! k"
    using klt by (simp add: take_Suc_conv_app_nth)
  ultimately have "hd (take (k + 1) ps) = hd ps" "last (take (k + 1) ps) = ps ! k" by simp_all
  moreover have "take (k + 1) ps \<noteq> []" using klt by auto
  ultimately have "segmentLength (hd ps) (ps ! k) \<le> pathLength (take (k + 1) ps)"
    using chord_le_path [of "take (k + 1) ps"] by simp
  with offLine_le_segment(1) [OF ab, of "ps ! k"]
  have left: "m \<le> pathLength (take (k + 1) ps)" unfolding m_def by simp
  have "hd (drop k ps) = ps ! k" "last (drop k ps) = last ps"
    using klt by (simp_all add: hd_drop_conv_nth)
  moreover have "drop k ps \<noteq> []" using klt by auto
  ultimately have "segmentLength (ps ! k) (last ps) \<le> pathLength (drop k ps)"
    using chord_le_path [of "drop k ps"] by simp
  with offLine_le_segment(2) [OF ab, of "ps ! k"]
  have right: "m \<le> pathLength (drop k ps)" unfolding m_def by simp
  show "pathLength (take (snd (dp_scan ps) + 1) ps) + eps < pathLength ps"
    using sum right far unfolding k_def by linarith
  show "pathLength (drop (snd (dp_scan ps)) ps) + eps < pathLength ps"
    using sum left far unfolding k_def by linarith
qed

lemma dp_depth:
  "0 \<le> eps \<Longrightarrow> pathLength ps \<le> real n * eps \<Longrightarrow> n < frames \<Longrightarrow>
     \<exists>out. douglasPeucker frames ps (Fin eps) = Inr out"
proof (induction frames arbitrary: n ps)
  case 0
  then show ?case by simp
next
  case (Suc frames)
  show ?case
  proof (cases "length ps < 3")
    case True
    then show ?thesis by (simp add: douglasPeucker_short)
  next
    case long: False
    show ?thesis
    proof (cases "js_gt (fst (dp_scan ps)) (Fin eps)")
      case False
      with long show ?thesis by (simp add: douglasPeucker_flat)
    next
      case True
      from long have len: "3 \<le> length ps" by simp
      note short = split_shortens [OF len True Suc.prems(1)]
      have pos: "0 < pathLength ps"
        using short(1) pathLength_nonneg [of "take (snd (dp_scan ps) + 1) ps"] Suc.prems(1)
        by linarith
      have "n \<noteq> 0"
      proof
        assume "n = 0"
        with Suc.prems(2) pos show False by simp
      qed
      then obtain n' where n: "n = Suc n'" by (cases n) auto
      have n': "n' < frames" using Suc.prems(3) n by simp
      have bound: "pathLength ps - eps \<le> real n' * eps"
        using Suc.prems(2) n by (simp add: algebra_simps)
      have "pathLength (take (snd (dp_scan ps) + 1) ps) \<le> real n' * eps"
        using short(1) bound by linarith
      from Suc.IH [OF Suc.prems(1) this n']
      obtain left where left:
        "douglasPeucker frames (take (snd (dp_scan ps) + 1) ps) (Fin eps) = Inr left"
        by blast
      have "pathLength (drop (snd (dp_scan ps)) ps) \<le> real n' * eps"
        using short(2) bound by linarith
      from Suc.IH [OF Suc.prems(1) this n']
      obtain right where right:
        "douglasPeucker frames (drop (snd (dp_scan ps)) ps) (Fin eps) = Inr right"
        by blast
      show ?thesis
        using long True left right by (simp add: douglasPeucker.simps)
    qed
  qed
qed

lemma perimeter_fold_sum:
  "fold (\<lambda>(p1, p2) perimeter. perimeter + sqrt ((px p2 - px p1)\<^sup>2 + (py p2 - py p1)\<^sup>2))
     pairs acc
   = acc + sum_list (map (\<lambda>(p1, p2). segmentLength p1 p2) pairs)"
  by (induction pairs arbitrary: acc) (auto simp: segmentLength_def)

lemma zip_longer: "zip xs (ys @ zs) = zip xs ys @ zip (drop (length ys) xs) zs"
  by (induction xs ys rule: list_induct2') auto

lemma pathLength_le_perimeter: "pathLength contour \<le> calculatePerimeter contour"
proof (cases contour)
  case Nil
  then show ?thesis by (simp add: pathLength_def calculatePerimeter_def)
next
  case (Cons a rest)
  have "zip contour (rotate1 contour) = zip contour (tl contour) @ zip (drop (length rest) contour) [a]"
    using Cons by (simp add: zip_longer del: zip_Cons_Cons)
  moreover have "0 \<le> sum_list (map (\<lambda>(p1, p2). segmentLength p1 p2) pairs)" for pairs
    by (induction pairs) (auto simp: segmentLength_nonneg)
  ultimately show ?thesis
    by (simp add: calculatePerimeter_def perimeter_fold_sum pathLength_def)
qed

subsection \<open>The claims about the simplifier\<close>


lemma bent_simplified:
  "douglasPeucker 2 [Point 0 0, Point 1 1, Point 2 0] (Fin (- 1))
     = Inr [Point 0 0, Point 1 1, Point 2 0]"
  by (simp add: douglasPeucker.simps eval_nat_numeral dp_scan_def perpendicularDistance_def
      js_gt_def)



text \<open>
  Claim C9, as amended. For every non-empty input and every tolerance, negative ones
  included, and whatever room the stack has: whenever \<^verbatim>\<open>douglasPeucker\<close> returns a result,
  the result is an order-preserving subsequence of the input that keeps the input's first
  and last point, so every simplified vertex is one of the original points. A result is
  returned whenever the tolerance is not negative (a number at least 0, \<open>+\<infinity>\<close> or NaN)
  and the stack has room for as many nested calls as the input has points, less one.
\<close>

theorem douglasPeucker_subsequence:
  "(ps \<noteq> [] \<and> douglasPeucker frames ps eps = Inr out \<longrightarrow>
      subseq out ps \<and> hd out = hd ps \<and> last out = last ps \<and> set out \<subseteq> set ps) \<and>
   (\<not> js_lt eps (Fin 0) \<and> length ps \<le> Suc frames \<and> 0 < frames \<longrightarrow>
      (\<exists>out. douglasPeucker frames ps eps = Inr out))"
proof -
  have "set out \<subseteq> set ps" if "subseq out ps"
    using that by (auto dest: list_emb_set)
  then show ?thesis
    using dp_partial [of frames ps eps out] dp_returns_length [of eps ps frames] by blast
qed

theorem douglasPeucker_subsequence_witness:
  "[Point 0 0, Point 1 1, Point 2 0] \<noteq> [] \<and>
   douglasPeucker 2 [Point 0 0, Point 1 1, Point 2 0] (Fin (- 1))
     = Inr [Point 0 0, Point 1 1, Point 2 0] \<and>
   subseq [Point 0 0, Point 1 1, Point 2 0] [Point 0 0, Point 1 1, Point 2 0] \<and>
   \<not> js_lt (Fin 0) (Fin 0) \<and> length [Point 0 0, Point 1 1, Point 2 0] \<le> Suc 2 \<and> (0 :: nat) < 2 \<and>
   (\<exists>out. douglasPeucker 2 [Point 0 0, Point 1 1, Point 2 0] (Fin 0) = Inr out)"
  using douglasPeucker_subsequence [of "[Point 0 0, Point 1 1, Point 2 0]" 2 "Fin (- 1)"
      "[Point 0 0, Point 1 1, Point 2 0]"]
    douglasPeucker_subsequence [of "[Point 0 0, Point 1 1, Point 2 0]" 2 "Fin 0"]
    bent_simplified
  by simp

text \<open>
  Claim C9 as stated, with an output for every tolerance, fails: with a negative
  tolerance and three points on a line no distance exceeds the initial maximum 0, the
  index stays 0 while \<open>0 > epsilon\<close> holds, and the call recurses on its own input until
  the stack is exhausted, here with room for 10000 calls. There is no output.
\<close>

theorem douglasPeucker_subsequence_counterexample:
  "douglasPeucker 10000 [Point 0 0, Point 1 0, Point 2 0] (Fin (- 1)) = Inl RangeError"
  by (rule dp_negative_loops)





section \<open>Properties of the hull builder\<close>

lemma popNonLeft_nonempty: "st \<noteq> [] \<Longrightarrow> popNonLeft st p \<noteq> []"
  by (induction st p rule: popNonLeft.induct) auto

lemma popNonLeft_subset: "set (popNonLeft st p) \<subseteq> set st"
  by (induction st p rule: popNonLeft.induct) auto

lemma popNonLeft_turns: "turnsDown st \<Longrightarrow> turnsDown (p # popNonLeft st p)"
proof (induction st p rule: popNonLeft.induct)
  case (1 a o' rest p)
  then show ?case by (cases rest) (auto simp: not_le)
qed simp_all

lemma scanStep_length: "st \<noteq> [] \<Longrightarrow> 2 \<le> length (scanStep p st)"
  unfolding scanStep_def using popNonLeft_nonempty [of st p]
  by (cases "popNonLeft st p") simp_all

lemma fold_scan_length_stack: "2 \<le> length st \<Longrightarrow> 2 \<le> length (fold scanStep xs st)"
proof (induction xs arbitrary: st)
  case Nil
  then show ?case by simp
next
  case (Cons x xs)
  from Cons.prems have "st \<noteq> []" by auto
  then have "2 \<le> length (scanStep x st)" by (rule scanStep_length)
  then show ?case using Cons.IH by simp
qed

lemma fold_scan_length: "2 \<le> length xs \<Longrightarrow> 2 \<le> length (fold scanStep xs [])"
proof -
  assume "2 \<le> length xs"
  then obtain x y zs where xs: "xs = x # y # zs"
    by (cases xs; cases "tl xs") auto
  have "2 \<le> length (scanStep y (scanStep x []))"
    by (intro scanStep_length) (simp add: scanStep_def)
  then show ?thesis unfolding xs by (simp add: fold_scan_length_stack)
qed

lemma fold_scan_inv:
  "turnsDown st \<Longrightarrow>
     turnsDown (fold scanStep xs st) \<and> set (fold scanStep xs st) \<subseteq> set xs \<union> set st"
proof (induction xs arbitrary: st)
  case Nil
  then show ?case by simp
next
  case (Cons x xs)
  have t: "turnsDown (scanStep x st)"
    unfolding scanStep_def using Cons.prems by (rule popNonLeft_turns)
  have s: "set (scanStep x st) \<subseteq> insert x (set st)"
    unfolding scanStep_def using popNonLeft_subset [of st x] by auto
  from Cons.IH [OF t] s show ?case by auto
qed

lemma leftTurning_snoc:
  "leftTurning (xs @ [c]) \<longleftrightarrow>
     leftTurning xs \<and> (2 \<le> length xs \<longrightarrow> 0 < crossProduct (xs ! (length xs - 2)) (last xs) c)"
  by (induction xs rule: leftTurning.induct) (auto simp: nth_Cons')

lemma leftTurning_rev: "leftTurning (rev st) = turnsDown st"
proof (induction st rule: turnsDown.induct)
  case (1 b a o' rest)
  have "rev (b # a # o' # rest) = (rev rest @ [o', a]) @ [b]" by simp
  then have "leftTurning (rev (b # a # o' # rest))
      = (leftTurning (rev rest @ [o', a]) \<and> 0 < crossProduct o' a b)"
    by (simp only: leftTurning_snoc) (simp add: nth_append)
  with 1 show ?case by auto
qed (simp_all)

text \<open>
  Claim C3, as amended. An input of fewer than 3 points is returned unchanged. For an
  input of at least 3 points the hull builder returns at least 2 vertices, each of them
  an input point, and every three consecutive vertices make a strict left turn.
\<close>

theorem convexHull_vertices:
  "(length ps < 3 \<longrightarrow> convexHull ps = ps) \<and>
   (3 \<le> length ps \<longrightarrow>
      2 \<le> length (convexHull ps) \<and> set (convexHull ps) \<subseteq> set ps \<and>
      leftTurning (convexHull ps))"
proof (cases "length ps < 3")
  case True
  then show ?thesis by (simp add: convexHull_def)
next
  case False
  define sorted where "sorted = sort_key (polarAngle (lowest ps)) ps"
  have hull: "convexHull ps = rev (fold scanStep sorted [])"
    using False by (simp add: convexHull_def sorted_def)
  have "2 \<le> length sorted" using False by (simp add: sorted_def)
  then have "2 \<le> length (fold scanStep sorted [])" by (rule fold_scan_length)
  moreover have "turnsDown (fold scanStep sorted [])"
    and "set (fold scanStep sorted []) \<subseteq> set sorted"
    using fold_scan_inv [of "[]" sorted] by simp_all
  moreover have "set sorted = set ps" by (simp add: sorted_def)
  ultimately show ?thesis
    using False by (simp add: hull leftTurning_rev)
qed

theorem convexHull_vertices_witness:
  "3 \<le> length [Point 4 3, Point 0 3, Point 2 0] \<and>
   convexHull [Point 4 3, Point 0 3, Point 2 0] = [Point 2 0, Point 4 3, Point 0 3] \<and>
   leftTurning (convexHull [Point 4 3, Point 0 3, Point 2 0]) \<and>
   length [Point 4 3, Point 0 3] < 3 \<and>
   convexHull [Point 4 3, Point 0 3] = [Point 4 3, Point 0 3]"
  using convexHull_vertices [of "[Point 4 3, Point 0 3, Point 2 0]"]
    convexHull_vertices [of "[Point 4 3, Point 0 3]"]
  by (simp add: convexHull_def lowest_def polarAngle_def atan2_def scanStep_def
      crossProduct_def)

text \<open>
  Claim C3 as stated fails: three points on a line are an input of 3 points, and the scan
  pops the middle one, whose cross product is 0, so 2 vertices are returned.
\<close>

theorem convexHull_vertices_counterexample:
  "length [Point 0 0, Point 1 0, Point 2 0] = 3 \<and>
   convexHull [Point 0 0, Point 1 0, Point 2 0] = [Point 0 0, Point 2 0]"
  by (simp add: convexHull_def lowest_def polarAngle_def atan2_def scanStep_def
      crossProduct_def)

lemma cornerMask_nth: "i < 121 \<Longrightarrow> cornerMask ! i = (i mod 11 < 10 \<and> i div 11 < 10)"
  by (simp add: cornerMask_def)

lemma cornerMask_length: "length cornerMask = 121"
  by (simp add: cornerMask_def)

lemma corner_components: "findConnectedComponents cornerMask 11 11 = [block]"
  unfolding findConnectedComponents_def
  by (simp add: upt_rec scanPixel_def floodFill_def floodLoop.simps pixelIndex_def
      cornerMask_nth cornerMask_length block_def downward_def)

lemma corner_boundary: "extractBoundary block 11 11 = cornerBoundary"
  by (simp add: extractBoundary_def neighbors_def block_def cornerBoundary_def downward_def)

lemma corner_hull: "convexHull cornerBoundary = [Point 9 0, Point 9 9]"
  by (simp add: convexHull_def lowest_def polarAngle_def atan2_def scanStep_def
      crossProduct_def cornerBoundary_def downward_def arctan_le_iff)

text \<open>
  Claim C4 does not hold of the scan. The pivot has polar angle 0, the largest there is
  (every other point is above it or on its row), so it is sorted last together with the
  points of its own row, in input order, and the scan can pop it. For the four points
  below the pivot \<open>(0, 3)\<close> is popped when \<open>(2, 3)\<close> arrives, and it lies outside the
  triangle that is returned. The same happens in the pipeline: for the dark square in the
  corner of the second image the hull consists of the two ends of column 9, and the
  boundary pixel \<open>(0, 9)\<close>, a corner of the square, is not on it.
\<close>

theorem convexHull_drops_pivot:
  "convexHull [Point 2 0, Point 4 3, Point 0 3, Point 2 3]
     = [Point 2 0, Point 4 3, Point 2 3] \<and>
   \<not> onOrInside (convexHull [Point 2 0, Point 4 3, Point 0 3, Point 2 3]) (Point 0 3) \<and>
   findConnectedComponents cornerMask 11 11 = [block] \<and>
   extractBoundary block 11 11 = cornerBoundary \<and>
   Point 0 9 \<in> set cornerBoundary \<and>
   convexHull cornerBoundary = [Point 9 0, Point 9 9] \<and>
   \<not> onOrInside (convexHull cornerBoundary) (Point 0 9)"
proof -
  have small: "convexHull [Point 2 0, Point 4 3, Point 0 3, Point 2 3]
      = [Point 2 0, Point 4 3, Point 2 3]"
    by (simp add: convexHull_def lowest_def polarAngle_def atan2_def scanStep_def
        crossProduct_def)
  have "\<not> onOrInside [Point 2 0, Point 4 3, Point 2 3] (Point 0 3)"
    by (simp add: onOrInside_def polygonEdges_def crossProduct_def)
  moreover have "\<not> onOrInside [Point 9 0, Point 9 9] (Point 0 9)"
    by (simp add: onOrInside_def polygonEdges_def crossProduct_def)
  moreover have "Point 0 9 \<in> set cornerBoundary"
    by (simp add: cornerBoundary_def downward_def)
  ultimately show ?thesis
    by (simp add: small corner_components corner_boundary corner_hull)
qed

section \<open>Properties of the classifier\<close>

lemma circle_confidence:
  "js_add (Fin 0.90) (js_min (Fin 0.08) (js_mul c (Fin 0.1)))
     = js_min (Fin 0.98) (js_add (Fin 0.90) (js_mul (Fin 0.10) c))"
  by (cases c) (auto simp: signed_inf_def)

lemma sqrt36: "sqrt 36 = 6"
  using real_sqrt_abs [of 6] by simp

lemma round_hull_circular:
  "isCircular [Point 12 6] (Point 6 6)
     \<lparr>bbox_x = 0, bbox_y = 0, bbox_width = 12, bbox_height = 12\<rparr>
     (circularityOf 120 30)
     (extentOf 120 \<lparr>bbox_x = 0, bbox_y = 0, bbox_width = 12, bbox_height = 12\<rparr>)
     (aspectRatioOf \<lparr>bbox_x = 0, bbox_y = 0, bbox_width = 12, bbox_height = 12\<rparr>)"
proof -
  have "7 / 10 \<le> 8 * pi / 15" using pi_ge_two by simp
  then have "\<not> js_lt (circularityOf 120 30) (Fin 0.70)"
    by (simp add: circularityOf_def)
  then show ?thesis
    by (simp add: isCircular_def extentOf_def aspectRatioOf_def radial_def js_gt_def
        js_sub_def sqrt36)
qed

text \<open>
  Claim C5. Whenever the circle test holds, the classifier reports a circle whose
  confidence is \<open>min(0.98, 0.90 + 0.10 * circularity)\<close>; and a circle is reported only
  then, with that confidence.
\<close>

theorem circle_confidence_formula:
  "(isCircular hullPoints center box (circularityOf area perimeter) (extentOf area box)
      (aspectRatioOf box) \<longrightarrow>
    classifyShape approx hullPoints box center area perimeter
      = Some (Circle, js_min (Fin 0.98)
                (js_add (Fin 0.90) (js_mul (Fin 0.10) (circularityOf area perimeter))))) \<and>
   (classifyShape approx hullPoints box center area perimeter = Some (Circle, conf) \<longrightarrow>
    isCircular hullPoints center box (circularityOf area perimeter) (extentOf area box)
      (aspectRatioOf box) \<and>
    conf = js_min (Fin 0.98)
             (js_add (Fin 0.90) (js_mul (Fin 0.10) (circularityOf area perimeter))))"
  unfolding classifyShape_def Let_def circle_confidence
  by (simp split: if_splits)

theorem circle_confidence_formula_witness:
  "isCircular [Point 12 6] (Point 6 6)
     \<lparr>bbox_x = 0, bbox_y = 0, bbox_width = 12, bbox_height = 12\<rparr>
     (circularityOf 120 30)
     (extentOf 120 \<lparr>bbox_x = 0, bbox_y = 0, bbox_width = 12, bbox_height = 12\<rparr>)
     (aspectRatioOf \<lparr>bbox_x = 0, bbox_y = 0, bbox_width = 12, bbox_height = 12\<rparr>) \<and>
   classifyShape [] [Point 12 6] \<lparr>bbox_x = 0, bbox_y = 0, bbox_width = 12, bbox_height = 12\<rparr>
     (Point 6 6) 120 30
   = Some (Circle, js_min (Fin 0.98)
       (js_add (Fin 0.90) (js_mul (Fin 0.10) (circularityOf 120 30))))"
  using circle_confidence_formula [of "[Point 12 6]" "Point 6 6"
      "\<lparr>bbox_x = 0, bbox_y = 0, bbox_width = 12, bbox_height = 12\<rparr>" 120 30 "[]" "Fin 0"]
    round_hull_circular
  by blast

section \<open>Properties of the analysis\<close>

lemma perimeter_fold_nonneg:
  "0 \<le> acc \<Longrightarrow>
   0 \<le> fold (\<lambda>(p1, p2) perimeter. perimeter + sqrt ((px p2 - px p1)\<^sup>2 + (py p2 - py p1)\<^sup>2))
         pairs acc"
  by (induction pairs arbitrary: acc) (auto simp: case_prod_beta)

lemma calculatePerimeter_nonneg: "0 \<le> calculatePerimeter contour"
  unfolding calculatePerimeter_def by (rule perimeter_fold_nonneg) simp

text \<open>
  The tolerances of the analysis are at least 0.005 of the perimeter, and the contour is
  no longer than its perimeter: the calls nest at most 201 deep.
\<close>

lemma dp_returns:
  assumes "200 < frames" and "pathLength contour \<le> perimeter" and "1 \<le> 200 * c"
  shows "\<exists>out. douglasPeucker frames contour (Fin (c * perimeter)) = Inr out"
proof -
  have p: "0 \<le> perimeter" using assms(2) pathLength_nonneg [of contour] by simp
  have c: "0 \<le> c" using assms(3) by simp
  have "1 * perimeter \<le> (200 * c) * perimeter"
    using assms(3) p by (intro mult_right_mono) simp_all
  then have "pathLength contour \<le> real 200 * (c * perimeter)"
    using assms(2) by simp
  moreover have "0 \<le> c * perimeter" using c p by simp
  ultimately show ?thesis using assms(1) by (intro dp_depth [of _ _ 200]) simp_all
qed

lemma approximate_returns:
  assumes "200 < frames" and "pathLength contourToUse \<le> perimeter"
  shows "\<exists>approx. approximate frames contourToUse perimeter extent = Inr approx"
proof -
  obtain regular where r: "douglasPeucker frames contourToUse (Fin (0.01 * perimeter)) = Inr regular"
    using dp_returns [OF assms, of "0.01"] by auto
  obtain finer where f: "douglasPeucker frames contourToUse (Fin (0.005 * perimeter)) = Inr finer"
    using dp_returns [OF assms, of "0.005"] by auto
  obtain coarser where c: "douglasPeucker frames contourToUse (Fin (0.03 * perimeter)) = Inr coarser"
    using dp_returns [OF assms, of "0.03"] by auto
  show ?thesis
    using r f c unfolding approximate_def Let_def by (auto split: sum.splits)
qed

lemma analyzeComponent_returns:
  assumes "200 < frames"
  shows "\<exists>r. analyzeComponent frames component width height = Inr r"
proof -
  define box where "box = boundingBoxOf component width height"
  define boundary where "boundary = extractBoundary component width height"
  define contour where "contour = selectContour boundary (convexHull boundary)
      (extentOf (real (length component)) box)"
  obtain approx where a: "approximate frames contour (calculatePerimeter contour)
      (extentOf (real (length component)) box) = Inr approx"
    using approximate_returns [OF assms pathLength_le_perimeter] by blast
  show ?thesis
    unfolding analyzeComponent_def Let_def
    using a unfolding contour_def boundary_def box_def
    by (auto split: option.splits prod.splits)
qed

lemma analyzeComponents_partial:
  "analyzeComponents frames components width height shapes = Inr found \<Longrightarrow>
     found = shapes @ List.map_filter (\<lambda>c. accepted frames c width height) components"
proof (induction components arbitrary: shapes)
  case Nil
  then show ?case by (simp add: List.map_filter_simps)
next
  case (Cons c cs)
  show ?case
  proof (cases "length c < 50")
    case True
    with Cons show ?thesis by (simp add: List.map_filter_simps accepted_def)
  next
    case False
    with Cons.prems obtain r where r: "analyzeComponent frames c width height = Inr r"
      by (cases "analyzeComponent frames c width height") simp_all
    show ?thesis
    proof (cases r)
      case None
      with Cons.prems r False
      have "analyzeComponents frames cs width height shapes = Inr found" by simp
      from Cons.IH [OF this] None r False show ?thesis
        by (simp add: List.map_filter_simps accepted_def)
    next
      case (Some shape)
      with Cons.prems r False
      have "analyzeComponents frames cs width height (shapes @ [shape]) = Inr found" by simp
      from Cons.IH [OF this] Some r False show ?thesis
        by (simp add: List.map_filter_simps accepted_def)
    qed
  qed
qed

lemma analyzeComponents_eq:
  assumes "200 < frames"
  shows "analyzeComponents frames components width height shapes
     = Inr (shapes @ List.map_filter (\<lambda>c. accepted frames c width height) components)"
proof (induction components arbitrary: shapes)
  case Nil
  then show ?case by (simp add: List.map_filter_simps)
next
  case (Cons c cs)
  obtain r where r: "analyzeComponent frames c width height = Inr r"
    using analyzeComponent_returns [OF assms] by blast
  show ?case
    using Cons.IH r by (cases r) (simp_all add: List.map_filter_simps accepted_def)
qed

lemma analyzeComponent_unfold:
  "analyzeComponent frames c w h =
     (if bbox_width (boundingBoxOf c w h) < 10 \<or> bbox_height (boundingBoxOf c w h) < 10 \<or>
         length (extractBoundary c w h) < 8
      then Inr None
      else case approximate frames (contourOf c w h) (calculatePerimeter (contourOf c w h))
                  (extentOf (real (length c)) (boundingBoxOf c w h)) of
             Inl e \<Rightarrow> Inl e
           | Inr approx \<Rightarrow>
              (case classificationOf frames c w h of
                 None \<Rightarrow> Inr None
               | Some (type, conf) \<Rightarrow>
                   Inr (Some \<lparr>shape_type = type, shape_confidence = conf,
                              shape_boundingBox = boundingBoxOf c w h,
                              shape_center = centerOf c w h,
                              shape_area = real (length c)\<rparr>)))"
  unfolding analyzeComponent_def classificationOf_def contourOf_def Let_def
  by (simp split: sum.splits option.splits)

lemma analyzeComponent_cases:
  assumes "200 < frames"
  shows "analyzeComponent frames c w h =
     (if bbox_width (boundingBoxOf c w h) < 10 \<or> bbox_height (boundingBoxOf c w h) < 10 \<or>
         length (extractBoundary c w h) < 8
      then Inr None
      else case classificationOf frames c w h of
             None \<Rightarrow> Inr None
           | Some (type, conf) \<Rightarrow>
               Inr (Some \<lparr>shape_type = type, shape_confidence = conf,
                          shape_boundingBox = boundingBoxOf c w h,
                          shape_center = centerOf c w h,
                          shape_area = real (length c)\<rparr>))"
proof -
  obtain approx where a: "approximate frames (contourOf c w h) (calculatePerimeter (contourOf c w h))
      (extentOf (real (length c)) (boundingBoxOf c w h)) = Inr approx"
    using approximate_returns [OF assms pathLength_le_perimeter] by blast
  show ?thesis
    by (subst analyzeComponent_unfold) (simp add: a)
qed

lemma accepted_None: "rejected frames c w h \<Longrightarrow> accepted frames c w h = None"
  unfolding rejected_def accepted_def
  by (subst analyzeComponent_unfold) (auto split: option.splits sum.splits)

lemma accepted_Some:
  "accepted frames c w h = Some s \<Longrightarrow>
     \<not> rejected frames c w h \<and> analyzeComponent frames c w h = Inr (Some s) \<and>
     (\<exists>type conf. classificationOf frames c w h = Some (type, conf) \<and>
        s = \<lparr>shape_type = type, shape_confidence = conf,
             shape_boundingBox = boundingBoxOf c w h, shape_center = centerOf c w h,
             shape_area = real (length c)\<rparr>)"
  unfolding rejected_def accepted_def
  by (subst (asm) analyzeComponent_unfold, subst analyzeComponent_unfold)
     (auto split: option.splits if_splits sum.splits)

lemma map_filter_mem:
  "s \<in> set (List.map_filter f xs) \<Longrightarrow> \<exists>x\<in>set xs. f x = Some s"
  by (auto simp: List.map_filter_def)

lemma map_filter_skip:
  "f c = None \<Longrightarrow> List.map_filter f (xs @ c # ys) = List.map_filter f (xs @ ys)"
  by (simp add: List.map_filter_def)

lemma isCircular_threshold:
  "isCircular hullPoints center box circularity extent aspectRatio \<Longrightarrow>
     \<not> js_lt circularity (Fin 0.70)"
  unfolding isCircular_def by (auto split: if_splits)

lemma circularity_positive_area:
  "0 < area \<Longrightarrow> circularityOf area perimeter = PInf \<or>
     (\<exists>v. circularityOf area perimeter = Fin v)"
  by (simp add: circularityOf_def)

lemma circle_confidence_range:
  assumes "c = PInf \<or> (\<exists>v. c = Fin v)" and "\<not> js_lt c (Fin 0.70)"
  shows "\<exists>r. js_add (Fin 0.90) (js_min (Fin 0.08) (js_mul c (Fin 0.1))) = Fin r \<and>
           0.60 \<le> r \<and> r \<le> 0.98"
proof (cases c)
  case (Fin v)
  with assms(2) have v: "0.70 \<le> v" by simp
  have "js_add (Fin 0.90) (js_min (Fin 0.08) (js_mul c (Fin 0.1)))
      = Fin (0.90 + min 0.08 (v * 0.1))"
    by (simp add: Fin min_def)
  moreover have "0.60 \<le> 0.90 + min 0.08 (v * 0.1)" "0.90 + min 0.08 (v * 0.1) \<le> 0.98"
    using v by (simp_all add: min_def)
  ultimately show ?thesis by blast
next
  case PInf
  have "js_add (Fin 0.90) (js_min (Fin 0.08) (js_mul c (Fin 0.1))) = Fin 0.98"
    by (simp add: PInf signed_inf_def)
  moreover have "(0.60 :: real) \<le> 0.98" "(0.98 :: real) \<le> 0.98" by simp_all
  ultimately show ?thesis by blast
next
  case NInf
  with assms show ?thesis by simp
next
  case NaN
  with assms show ?thesis by simp
qed

lemma classifyShape_confidence:
  assumes "0 < area"
    and "classifyShape approx hullPoints box center area perimeter = Some (type, conf)"
  shows "\<exists>r. conf = Fin r \<and> 0.60 \<le> r \<and> r \<le> 0.98"
proof (cases "isCircular hullPoints center box (circularityOf area perimeter)
    (extentOf area box) (aspectRatioOf box)")
  case True
  then have "conf = js_add (Fin 0.90) (js_min (Fin 0.08)
      (js_mul (circularityOf area perimeter) (Fin 0.1)))"
    using assms(2) unfolding classifyShape_def Let_def by simp
  then show ?thesis
    using circle_confidence_range [OF circularity_positive_area [OF assms(1)]
        isCircular_threshold [OF True]]
    by simp
next
  case False
  then show ?thesis
    using assms(2) unfolding classifyShape_def Let_def
    by (auto split: if_splits)
qed

lemma samplePoints_length: "length (samplePoints points (min (length points) 12)) \<le> 12"
  by (simp add: samplePoints_def min_def)

subsection \<open>The analysis of the concrete component\<close>

lemma block_length: "length block = 100"
  by (simp add: block_def downward_def)

lemma block_bbox:
  "boundingBoxOf block 10 11 = \<lparr>bbox_x = 0, bbox_y = 0, bbox_width = 10, bbox_height = 10\<rparr>"
  by (simp add: boundingBoxOf_def minXOf_def maxXOf_def minYOf_def maxYOf_def block_def
      downward_def)

lemma block_center: "centerOf block 10 11 = Point (9 / 2) (9 / 2)"
  by (simp add: centerOf_def minXOf_def maxXOf_def minYOf_def maxYOf_def block_def
      downward_def)

lemma block_boundary: "extractBoundary block 10 11 = blockRow"
  by (simp add: extractBoundary_def neighbors_def block_def blockRow_def downward_def)

lemma block_hull: "convexHull blockRow = [Point 0 9, Point 9 9]"
  by (simp add: convexHull_def lowest_def polarAngle_def atan2_def scanStep_def
      crossProduct_def blockRow_def downward_def)

lemma sqrt81: "sqrt 81 = 9"
  using real_sqrt_abs [of 9] by simp

lemma block_perimeter: "calculatePerimeter blockRow = 18"
  by (simp add: calculatePerimeter_def blockRow_def downward_def sqrt81)

lemma block_extent: "extentOf 100 \<lparr>bbox_x = 0, bbox_y = 0, bbox_width = 10, bbox_height = 10\<rparr> = Fin 1"
  by (simp add: extentOf_def)

lemma block_contour: "selectContour blockRow [Point 0 9, Point 9 9] (Fin 1) = blockRow"
  by (simp add: selectContour_def js_gt_def)

lemma block_simplified:
  "0 < frames \<Longrightarrow> 0 \<le> eps \<Longrightarrow>
     douglasPeucker frames blockRow (Fin eps) = Inr [Point 0 9, Point 9 9]"
  by (cases frames)
     (simp_all add: douglasPeucker.simps dp_scan_def perpendicularDistance_def js_gt_def
       blockRow_def downward_def sqrt81)

lemma block_sampled: "samplePoints blockRow (min (length blockRow) 12) = blockRow"
  by (simp add: samplePoints_def blockRow_def downward_def)

lemma block_approximate: "0 < frames \<Longrightarrow> approximate frames blockRow 18 (Fin 1) = Inr blockRow"
  unfolding approximate_def Let_def
  by (simp add: block_simplified block_sampled js_gt_def) (simp add: blockRow_def downward_def)

lemma block_not_circular:
  "\<not> isCircular [Point 0 9, Point 9 9] (Point (9 / 2) (9 / 2))
       \<lparr>bbox_x = 0, bbox_y = 0, bbox_width = 10, bbox_height = 10\<rparr> c e a"
proof -
  have "6\<^sup>2 \<le> (81 / 2 :: real)" by simp
  then have "6 \<le> sqrt (81 / 2)" by (rule real_le_rsqrt)
  then have far: "1 \<le> \<bar>sqrt (81 / 2) - 5\<bar>" by simp
  have r1: "radial (Point 0 9) (Point (9 / 2) (9 / 2)) = sqrt (81 / 2)"
    and r2: "radial (Point 9 9) (Point (9 / 2) (9 / 2)) = sqrt (81 / 2)"
    by (simp_all add: radial_def power2_eq_square)
  show ?thesis
    unfolding isCircular_def Let_def using far
    by (simp add: r1 r2)
qed

lemma block_classified:
  "classifyShape blockRow [Point 0 9, Point 9 9]
     \<lparr>bbox_x = 0, bbox_y = 0, bbox_width = 10, bbox_height = 10\<rparr> (Point (9 / 2) (9 / 2)) 100 18
   = Some (Rectangle, Fin 0.60)"
  unfolding classifyShape_def Let_def
  by (simp add: block_not_circular block_extent js_gt_def) (simp add: blockRow_def downward_def)

lemma block_analysis:
  assumes "0 < frames"
  shows "analyzeComponent frames block 10 11 =
     Inr (Some \<lparr>shape_type = Rectangle, shape_confidence = Fin 0.60,
        shape_boundingBox = \<lparr>bbox_x = 0, bbox_y = 0, bbox_width = 10, bbox_height = 10\<rparr>,
        shape_center = Point (9 / 2) (9 / 2), shape_area = 100\<rparr>)"
proof -
  have len: "length blockRow = 10" by (simp add: blockRow_def downward_def)
  show ?thesis
    unfolding analyzeComponent_def Let_def
    by (simp add: block_bbox block_center block_boundary block_length len block_hull
        block_extent block_contour block_perimeter block_approximate [OF assms]
        block_classified)
qed

lemma block_list: "0 < frames \<Longrightarrow> analyzeComponents frames [block] 10 11 [] = Inr [blockShape]"
  by (simp add: block_length block_analysis blockShape_def)

subsection \<open>The analysis of the component that is not symmetric\<close>

lemma notch_length: "length notch = 109"
  by (simp add: notch_def downward_def downwardTall_def)

lemma notch_bbox:
  "boundingBoxOf notch 10 12 = \<lparr>bbox_x = 0, bbox_y = 0, bbox_width = 10, bbox_height = 11\<rparr>"
  by (simp add: boundingBoxOf_def minXOf_def maxXOf_def minYOf_def maxYOf_def notch_def
      downward_def downwardTall_def)

lemma notch_center: "centerOf notch 10 12 = Point (9 / 2) 5"
  by (simp add: centerOf_def minXOf_def maxXOf_def minYOf_def maxYOf_def notch_def
      downward_def downwardTall_def)

lemma notch_centroid: "centroid notch = Point (486 / 109) (540 / 109)"
  by (simp add: centroid_def notch_def downward_def downwardTall_def)

lemma notch_boundary: "extractBoundary notch 10 12 = notchRow"
  by (simp add: extractBoundary_def neighbors_def notch_def notchRow_def downward_def
      downwardTall_def)

lemma notch_hull: "convexHull notchRow = [Point 9 9, Point 8 10]"
  by (simp add: convexHull_def lowest_def polarAngle_def atan2_def scanStep_def
      crossProduct_def notchRow_def downward_def arctan_le_iff arctan_less_iff)

lemma notch_perimeter: "calculatePerimeter notchRow = 8 + sqrt 2 + sqrt 82"
  by (simp add: calculatePerimeter_def notchRow_def downward_def)

lemma notch_extent:
  "extentOf 109 \<lparr>bbox_x = 0, bbox_y = 0, bbox_width = 10, bbox_height = 11\<rparr> = Fin (109 / 110)"
  by (simp add: extentOf_def)

lemma notch_contour: "selectContour notchRow [Point 9 9, Point 8 10] (Fin (109 / 110)) = notchRow"
  by (simp add: selectContour_def js_gt_def)

lemma notch_scan: "dp_scan notchRow = (Fin (8 / sqrt 82), 8)"
  by (simp add: dp_scan_def perpendicularDistance_def js_gt_def notchRow_def downward_def
      divide_less_cancel)

lemma sqrt82_bounds: "9 \<le> sqrt 82" "sqrt 82 \<le> 10"
proof -
  have "9\<^sup>2 \<le> (82 :: real)" by simp
  then show "9 \<le> sqrt 82" by (rule real_le_rsqrt)
  have "(82 :: real) \<le> 10\<^sup>2" by simp
  then show "sqrt 82 \<le> 10" by (intro real_le_lsqrt) simp_all
qed

lemma sqrt2_bounds: "1 \<le> sqrt 2" "sqrt 2 \<le> 2"
proof -
  have "1\<^sup>2 \<le> (2 :: real)" by simp
  then show "1 \<le> sqrt 2" by (rule real_le_rsqrt)
  have "(2 :: real) \<le> 2\<^sup>2" by simp
  then show "sqrt 2 \<le> 2" by (intro real_le_lsqrt) simp_all
qed

lemma notch_perimeter_bounds: "18 \<le> 8 + sqrt 2 + sqrt 82" "8 + sqrt 2 + sqrt 82 \<le> 20"
  using sqrt82_bounds sqrt2_bounds by linarith+

lemma notch_far: "4 / 5 \<le> 8 / sqrt 82"
proof -
  have "8 / 10 \<le> 8 / sqrt 82"
    using sqrt82_bounds by (intro frac_le) simp_all
  then show ?thesis by simp
qed

lemma notch_row_length: "length notchRow = 10"
  by (simp add: notchRow_def downward_def)

lemma notch_simplified:
  assumes "1 < frames" "0 \<le> eps" "eps < 4 / 5"
  shows "douglasPeucker frames notchRow (Fin eps) = Inr [Point 0 10, Point 8 10, Point 9 9]"
proof -
  obtain f where f: "frames = Suc (Suc f)"
    using assms(1) by (cases frames; cases "frames - 1") auto
  have split: "js_gt (fst (dp_scan notchRow)) (Fin eps)"
    using assms(3) notch_far by (simp add: notch_scan js_gt_def)
  have k: "snd (dp_scan notchRow) = 8" by (simp add: notch_scan)
  have left: "douglasPeucker (Suc f) (take 9 notchRow) (Fin eps) = Inr [Point 0 10, Point 8 10]"
    using assms(2)
    by (simp add: douglasPeucker.simps dp_scan_def perpendicularDistance_def
        js_gt_def notchRow_def downward_def)
  have right: "douglasPeucker (Suc f) (drop 8 notchRow) (Fin eps) = Inr [Point 8 10, Point 9 9]"
    by (simp add: douglasPeucker.simps notchRow_def downward_def)
  show ?thesis
    unfolding f using split
    by (subst douglasPeucker.simps) (simp add: notch_row_length k left right)
qed

lemma notch_sampled: "samplePoints notchRow (min (length notchRow) 12) = notchRow"
  by (simp add: samplePoints_def notch_row_length)

lemma notch_sampled_10: "samplePoints notchRow 10 = notchRow"
  by (simp add: samplePoints_def notch_row_length)

lemma notch_approximate:
  assumes "1 < frames"
  shows "approximate frames notchRow (8 + sqrt 2 + sqrt 82) (Fin (109 / 110)) = Inr notchRow"
proof -
  have r: "douglasPeucker frames notchRow (Fin (0.01 * (8 + sqrt 2 + sqrt 82)))
      = Inr [Point 0 10, Point 8 10, Point 9 9]"
    using assms notch_perimeter_bounds by (intro notch_simplified) simp_all
  have f: "douglasPeucker frames notchRow (Fin (0.005 * (8 + sqrt 2 + sqrt 82)))
      = Inr [Point 0 10, Point 8 10, Point 9 9]"
    using assms notch_perimeter_bounds by (intro notch_simplified) simp_all
  show ?thesis
    unfolding approximate_def Let_def using r f
    by (simp add: notch_sampled_10 js_gt_def notch_row_length)
qed

lemma notch_circularity:
  "\<exists>v. circularityOf 109 (8 + sqrt 2 + sqrt 82) = Fin v \<and> 2 \<le> v"
proof -
  define p where "p = 8 + sqrt 2 + sqrt 82"
  have p: "18 \<le> p" "p \<le> 20" unfolding p_def using notch_perimeter_bounds by simp_all
  have pp: "p * p \<le> 20 * 20" using p by (intro mult_mono) simp_all
  have pos: "0 < p * p" using p by simp
  have "800 \<le> 4 * pi * 109" using pi_ge_two by simp
  then have "2 * (p * p) \<le> 4 * pi * 109" using pp by simp
  then have "2 \<le> 4 * pi * 109 / (p * p)" using pos by (simp add: field_simps)
  moreover have "circularityOf 109 p = Fin (4 * pi * 109 / (p * p))"
    using p by (simp add: circularityOf_def)
  ultimately show ?thesis unfolding p_def by blast
qed

lemma notch_radial:
  "radial (Point 9 9) (Point (9 / 2) 5) = sqrt (145 / 4)"
  "radial (Point 8 10) (Point (9 / 2) 5) = sqrt (149 / 4)"
  by (simp_all add: radial_def power2_eq_square)

lemma notch_radial_bounds:
  "6 \<le> sqrt (145 / 4)" "sqrt (145 / 4) \<le> 61 / 10"
  "6 \<le> sqrt (149 / 4)" "sqrt (149 / 4) \<le> 31 / 5"
proof -
  have "6\<^sup>2 \<le> (145 / 4 :: real)" by simp
  then show "6 \<le> sqrt (145 / 4)" by (rule real_le_rsqrt)
  have "(145 / 4 :: real) \<le> (61 / 10)\<^sup>2" by (simp add: power2_eq_square)
  then show "sqrt (145 / 4) \<le> 61 / 10" by (intro real_le_lsqrt) simp_all
  have "6\<^sup>2 \<le> (149 / 4 :: real)" by simp
  then show "6 \<le> sqrt (149 / 4)" by (rule real_le_rsqrt)
  have "(149 / 4 :: real) \<le> (31 / 5)\<^sup>2" by (simp add: power2_eq_square)
  then show "sqrt (149 / 4) \<le> 31 / 5" by (intro real_le_lsqrt) simp_all
qed

lemma notch_circular:
  assumes "\<not> js_lt c (Fin 0.70)"
  shows "isCircular [Point 9 9, Point 8 10] (Point (9 / 2) 5)
       \<lparr>bbox_x = 0, bbox_y = 0, bbox_width = 10, bbox_height = 11\<rparr> c (Fin (109 / 110))
       (aspectRatioOf \<lparr>bbox_x = 0, bbox_y = 0, bbox_width = 10, bbox_height = 11\<rparr>)"
proof -
  have "(\<bar>sqrt (145 / 4) - 21 / 4\<bar> / (21 / 4) + \<bar>sqrt (149 / 4) - 21 / 4\<bar> / (21 / 4)) / 2 < 1 / 5"
    using notch_radial_bounds by (simp add: field_simps)
  then show ?thesis
    unfolding isCircular_def Let_def using assms
    by (simp add: notch_radial aspectRatioOf_def js_gt_def js_sub_def)
qed

lemma notch_classified:
  "classifyShape notchRow [Point 9 9, Point 8 10]
     \<lparr>bbox_x = 0, bbox_y = 0, bbox_width = 10, bbox_height = 11\<rparr> (Point (9 / 2) 5) 109
     (8 + sqrt 2 + sqrt 82)
   = Some (Circle, Fin 0.98)"
proof -
  from notch_circularity obtain v where v: "circularityOf 109 (8 + sqrt 2 + sqrt 82) = Fin v"
    "2 \<le> v" by blast
  have "\<not> js_lt (Fin v) (Fin 0.70)" using v(2) by simp
  from notch_circular [OF this] show ?thesis
    unfolding classifyShape_def Let_def using v(2)
    by (simp add: v(1) notch_extent)
qed

lemma notch_analysis:
  assumes "1 < frames"
  shows "analyzeComponent frames notch 10 12 = Inr (Some notchShape)"
  unfolding analyzeComponent_def Let_def
  by (simp add: notch_bbox notch_center notch_boundary notch_length notch_row_length notch_hull
      notch_extent notch_contour notch_perimeter notch_approximate [OF assms] notch_classified
      notchShape_def)

lemma notch_list:
  "1 < frames \<Longrightarrow> analyzeComponents frames [notch] 10 12 [] = Inr [notchShape]"
  by (simp add: notch_length notch_analysis)

subsection \<open>The claims about the analysis\<close>

text \<open>
  Claim C2, as amended. The refinement after the first simplification (the finer
  tolerance \<open>0.005 * perimeter\<close> when fewer than 4 vertices remain and \<open>extent > 0.80\<close>,
  then the sampling of \<open>min(contourLength, 12)\<close> points) is never applied in branch 1
  (\<open>extent < 0.40\<close>), where the boundary is simplified once. It is applied to whichever
  contour was selected otherwise: the hull of branch 3, and also the boundary of branch 2
  (hull of fewer than 4 points and \<open>extent > 0.80\<close>).
\<close>

theorem refinement_scope:
  "(js_lt extent (Fin 0.40) \<longrightarrow>
      selectContour boundary hullPoints extent = boundary \<and>
      approximate frames boundary perimeter extent
        = douglasPeucker frames boundary (Fin (0.01 * perimeter))) \<and>
   (\<not> js_lt extent (Fin 0.40) \<and> length hullPoints < 4 \<and> js_gt extent (Fin 0.80) \<longrightarrow>
      selectContour boundary hullPoints extent = boundary) \<and>
   (\<not> js_lt extent (Fin 0.40) \<and> \<not> (length hullPoints < 4 \<and> js_gt extent (Fin 0.80)) \<longrightarrow>
      selectContour boundary hullPoints extent = hullPoints) \<and>
   (\<not> js_lt extent (Fin 0.40) \<and> js_gt extent (Fin 0.80) \<and>
    douglasPeucker frames contour (Fin (0.01 * perimeter)) = Inr regular \<and> length regular < 4 \<and>
    douglasPeucker frames contour (Fin (0.005 * perimeter)) = Inr finer \<and> length finer < 20 \<longrightarrow>
      approximate frames contour perimeter extent =
        Inr (if length finer < 4 then samplePoints contour (min (length contour) 12)
             else finer))"
proof -
  have sample: "\<not> 12 < length (samplePoints contour (min (length contour) 12))"
    using samplePoints_length [of contour] by simp
  show ?thesis
    unfolding approximate_def selectContour_def Let_def
    using sample by (auto split: sum.splits)
qed

theorem refinement_scope_witness:
  "js_lt (Fin 0.3) (Fin 0.40) \<and>
   approximate 201 blockRow 18 (Fin 0.3) = Inr [Point 0 9, Point 9 9] \<and>
   \<not> js_lt (Fin 1) (Fin 0.40) \<and> length [Point 0 9, Point 9 9] < 4 \<and>
   js_gt (Fin 1) (Fin 0.80) \<and>
   selectContour blockRow [Point 0 9, Point 9 9] (Fin 1) = blockRow \<and>
   \<not> js_lt (Fin 0.5) (Fin 0.40) \<and> \<not> js_gt (Fin 0.5) (Fin 0.80) \<and>
   selectContour blockRow [Point 0 9, Point 9 9] (Fin 0.5) = [Point 0 9, Point 9 9] \<and>
   douglasPeucker 201 blockRow (Fin (0.01 * 18)) = Inr [Point 0 9, Point 9 9] \<and>
   douglasPeucker 201 blockRow (Fin (0.005 * 18)) = Inr [Point 0 9, Point 9 9] \<and>
   approximate 201 blockRow 18 (Fin 1) = Inr (samplePoints blockRow (min (length blockRow) 12))"
proof -
  have r: "douglasPeucker 201 blockRow (Fin (0.01 * 18)) = Inr [Point 0 9, Point 9 9]"
    by (rule block_simplified) simp_all
  have f: "douglasPeucker 201 blockRow (Fin (0.005 * 18)) = Inr [Point 0 9, Point 9 9]"
    by (rule block_simplified) simp_all
  have c: "js_lt (Fin 0.3) (Fin 0.40)" "\<not> js_lt (Fin 1) (Fin 0.40)" "js_gt (Fin 1) (Fin 0.80)"
    "\<not> js_lt (Fin 0.5) (Fin 0.40)" "\<not> js_gt (Fin 0.5) (Fin 0.80)"
    by (simp_all add: js_gt_def)
  from refinement_scope [of "Fin 0.3" blockRow "[]" 201 18 blockRow "[]" "[]"] c(1) r
  have b1: "approximate 201 blockRow 18 (Fin 0.3) = Inr [Point 0 9, Point 9 9]" by simp
  from refinement_scope [of "Fin 1" blockRow "[Point 0 9, Point 9 9]" 201 18 blockRow
      "[Point 0 9, Point 9 9]" "[Point 0 9, Point 9 9]"] c(2,3) r f
  have b2: "selectContour blockRow [Point 0 9, Point 9 9] (Fin 1) = blockRow"
    and b3: "approximate 201 blockRow 18 (Fin 1)
        = Inr (samplePoints blockRow (min (length blockRow) 12))"
    by simp_all
  from refinement_scope [of "Fin 0.5" blockRow "[Point 0 9, Point 9 9]" 201 18 blockRow
      "[]" "[]"] c(4,5)
  have b4: "selectContour blockRow [Point 0 9, Point 9 9] (Fin 0.5) = [Point 0 9, Point 9 9]"
    by simp
  show ?thesis using r f c b1 b2 b3 b4 by simp
qed

text \<open>
  Claim C2 as stated fails in branch 2. For the concrete component the hull has 2 points
  and the extent is 1, so the boundary is selected; one pass leaves 2 vertices, and the
  polygon that reaches the classifier is the 10 sampled points: the result is a rectangle
  of confidence 0.60 (the rule for 10 or more vertices), not 0.70 (the rule for 2).
\<close>

theorem refinement_scope_counterexample:
  "extractBoundary block 10 11 = blockRow \<and>
   convexHull blockRow = [Point 0 9, Point 9 9] \<and>
   extentOf (real (length block)) (boundingBoxOf block 10 11) = Fin 1 \<and>
   selectContour blockRow (convexHull blockRow) (Fin 1) = blockRow \<and>
   calculatePerimeter blockRow = 18 \<and>
   douglasPeucker 201 blockRow (Fin (0.01 * 18)) = Inr [Point 0 9, Point 9 9] \<and>
   approximate 201 blockRow 18 (Fin 1) = Inr blockRow \<and>
   length blockRow = 10 \<and>
   analyzeComponent 201 block 10 11 = Inr (Some blockShape)"
proof -
  have "length blockRow = 10" by (simp add: blockRow_def downward_def)
  moreover have "douglasPeucker 201 blockRow (Fin (0.01 * 18)) = Inr [Point 0 9, Point 9 9]"
    by (rule block_simplified) simp_all
  ultimately show ?thesis
    by (simp add: block_boundary block_hull block_length block_bbox block_extent
        block_contour block_perimeter block_approximate block_analysis blockShape_def)
qed

lemma rejection_skips:
  assumes "200 < frames"
  shows "(\<exists>shapes. analyzeComponents frames components width height [] = Inr shapes) \<and>
   (\<exists>r. analyzeComponent frames c width height = Inr r) \<and>
   (rejected frames c width height \<longrightarrow>
      (length c < 50 \<or> analyzeComponent frames c width height = Inr None) \<and>
      analyzeComponents frames (before @ c # after) width height []
        = analyzeComponents frames (before @ after) width height [])"
proof -
  have "analyzeComponents frames (before @ c # after) width height []
        = analyzeComponents frames (before @ after) width height []"
    if "rejected frames c width height"
    using accepted_None [OF that] by (simp add: analyzeComponents_eq [OF assms] map_filter_skip)
  moreover have "length c < 50 \<or> analyzeComponent frames c width height = Inr None"
    if "rejected frames c width height"
    using that unfolding rejected_def by (auto simp: analyzeComponent_cases [OF assms])
  ultimately show ?thesis
    using analyzeComponent_returns [OF assms, of c width height]
    by (simp add: analyzeComponents_eq [OF assms])
qed

lemma analyzed_area_and_center:
  assumes "analyzeComponents frames components width height [] = Inr shapes"
    and "s \<in> set shapes"
  shows "\<exists>c\<in>set components.
           analyzeComponent frames c width height = Inr (Some s) \<and>
           shape_area s = real (length c) \<and>
           shape_boundingBox s = boundingBoxOf c width height \<and>
           shape_center s =
             Point (bbox_x (shape_boundingBox s) + (bbox_width (shape_boundingBox s) - 1) / 2)
                   (bbox_y (shape_boundingBox s) + (bbox_height (shape_boundingBox s) - 1) / 2)"
proof -
  from analyzeComponents_partial [OF assms(1)] assms(2)
  have "s \<in> set (List.map_filter (\<lambda>c. accepted frames c width height) components)"
    by simp
  then obtain c where c: "c \<in> set components" "accepted frames c width height = Some s"
    using map_filter_mem by fastforce
  from accepted_Some [OF c(2)] have
    "analyzeComponent frames c width height = Inr (Some s)"
    "shape_area s = real (length c)"
    "shape_boundingBox s = boundingBoxOf c width height"
    "shape_center s = centerOf c width height"
    by auto
  moreover have "centerOf c width height =
      Point (bbox_x (boundingBoxOf c width height)
               + (bbox_width (boundingBoxOf c width height) - 1) / 2)
            (bbox_y (boundingBoxOf c width height)
               + (bbox_height (boundingBoxOf c width height) - 1) / 2)"
    by (simp add: centerOf_def boundingBoxOf_def field_simps)
  ultimately show ?thesis using c(1) by auto
qed

lemma analyzed_shape_bounds:
  assumes "analyzeComponents frames components width height [] = Inr shapes"
    and "s \<in> set shapes"
  shows "10 \<le> bbox_width (shape_boundingBox s) \<and> 10 \<le> bbox_height (shape_boundingBox s) \<and>
         50 \<le> shape_area s \<and>
         (\<exists>r. shape_confidence s = Fin r \<and> 0.60 \<le> r \<and> r \<le> 0.98)"
proof -
  from analyzeComponents_partial [OF assms(1)] assms(2)
  have "s \<in> set (List.map_filter (\<lambda>c. accepted frames c width height) components)"
    by simp
  then obtain c where c: "accepted frames c width height = Some s"
    using map_filter_mem by fastforce
  from accepted_Some [OF c] obtain type conf where
    ok: "\<not> rejected frames c width height"
    and cl: "classificationOf frames c width height = Some (type, conf)"
    and s: "s = \<lparr>shape_type = type, shape_confidence = conf,
             shape_boundingBox = boundingBoxOf c width height,
             shape_center = centerOf c width height, shape_area = real (length c)\<rparr>"
    by auto
  from ok have big: "50 \<le> length c" "10 \<le> bbox_width (boundingBoxOf c width height)"
    "10 \<le> bbox_height (boundingBoxOf c width height)"
    unfolding rejected_def by auto
  from cl obtain approx where
    "classifyShape approx (convexHull (extractBoundary c width height))
       (boundingBoxOf c width height) (centerOf c width height) (real (length c))
       (calculatePerimeter (contourOf c width height)) = Some (type, conf)"
    unfolding classificationOf_def by (auto split: sum.splits)
  moreover have "0 < real (length c)" using big(1) by (cases c) simp_all
  ultimately have "\<exists>r. conf = Fin r \<and> 0.60 \<le> r \<and> r \<le> 0.98"
    using classifyShape_confidence by blast
  with big show ?thesis by (simp add: s)
qed

section \<open>Properties of the pipeline\<close>

lemma indexed_step:
  assumes "indexed width labeled component" "pixelIndex width x y \<notin> labeled"
  shows "indexed width (insert (pixelIndex width x y) labeled)
           (component @ [Point (real_of_int x) (real_of_int y)])"
proof -
  have "Point (real_of_int x) (real_of_int y) \<notin> set component"
  proof
    assume "Point (real_of_int x) (real_of_int y) \<in> set component"
    with assms(1) obtain x' y' where "Point (real_of_int x) (real_of_int y)
        = Point (real_of_int x') (real_of_int y')" "pixelIndex width x' y' \<in> labeled"
      unfolding indexed_def by blast
    with assms(2) show False by simp
  qed
  with assms(1) show ?thesis unfolding indexed_def by auto
qed

lemma floodLoop_indexed:
  "indexed width labeled component \<Longrightarrow>
     indexed width (fst (floodLoop binary width height labeled stack component))
       (snd (floodLoop binary width height labeled stack component))"
proof (induction binary width height labeled stack component rule: floodLoop.induct)
  case (1 binary width height labeled component)
  then show ?case by (simp add: floodLoop.simps(1))
next
  case (2 binary width height labeled x y stack component)
  show ?case
  proof (cases "x < 0 \<or> int width \<le> x \<or> y < 0 \<or> int height \<le> y")
    case True
    then have "floodLoop binary width height labeled ((x, y) # stack) component
        = floodLoop binary width height labeled stack component"
      by (subst floodLoop.simps) simp
    with "2.IH"(1) [OF True "2.prems"] show ?thesis by simp
  next
    case inside: False
    show ?thesis
    proof (cases "(pixelIndex width x y < length binary \<and> \<not> binary ! pixelIndex width x y) \<or>
        pixelIndex width x y \<in> labeled")
      case True
      with inside have "floodLoop binary width height labeled ((x, y) # stack) component
          = floodLoop binary width height labeled stack component"
        by (subst floodLoop.simps) simp
      with "2.IH"(2) [OF inside True "2.prems"] show ?thesis by simp
    next
      case False
      then have "indexed width (insert (pixelIndex width x y) labeled)
          (component @ [Point (real_of_int x) (real_of_int y)])"
        using "2.prems" by (intro indexed_step) simp_all
      moreover from inside False
      have "floodLoop binary width height labeled ((x, y) # stack) component
          = floodLoop binary width height (insert (pixelIndex width x y) labeled)
              ((x, y - 1) # (x, y + 1) # (x - 1, y) # (x + 1, y) # stack)
              (component @ [Point (real_of_int x) (real_of_int y)])"
        by (subst floodLoop.simps) auto
      ultimately show ?thesis using "2.IH"(3) [OF inside False] by simp
    qed
  qed
qed

lemma floodFill_distinct: "distinct (snd (floodFill binary labeled startX startY width height))"
proof -
  have "indexed width labeled []" by (simp add: indexed_def)
  from floodLoop_indexed [OF this, of binary height "[(startX, startY)]"]
  show ?thesis unfolding floodFill_def indexed_def by blast
qed

lemma scanPixel_distinct:
  "\<forall>c\<in>set (snd state). distinct c \<Longrightarrow>
     \<forall>c\<in>set (snd (scanPixel binary width height yx state)). distinct c"
  unfolding scanPixel_def Let_def by (auto simp: floodFill_distinct)

lemma fold_scanPixel_distinct:
  "\<forall>c\<in>set (snd state). distinct c \<Longrightarrow>
     \<forall>c\<in>set (snd (fold (scanPixel binary width height) yxs state)). distinct c"
proof (induction yxs arbitrary: state)
  case Nil
  then show ?case by simp
next
  case (Cons yx yxs)
  from scanPixel_distinct [OF Cons.prems]
  have "\<forall>c\<in>set (snd (scanPixel binary width height yx state)). distinct c" .
  from Cons.IH [OF this] show ?case by simp
qed

lemma findConnectedComponents_distinct:
  "c \<in> set (findConnectedComponents binary width height) \<Longrightarrow> distinct c"
  unfolding findConnectedComponents_def
  using fold_scanPixel_distinct [of "({}, [])" binary width height] by simp

lemma popNonLeft_distinct: "distinct st \<Longrightarrow> distinct (popNonLeft st p)"
  by (induction st p rule: popNonLeft.induct) auto

lemma fold_scan_distinct:
  "distinct (xs @ st) \<Longrightarrow> distinct (fold scanStep xs st)"
proof (induction xs arbitrary: st)
  case Nil
  then show ?case by simp
next
  case (Cons x xs)
  have "distinct (popNonLeft st x)" using Cons.prems by (intro popNonLeft_distinct) simp
  moreover have "x \<notin> set (popNonLeft st x)"
    using popNonLeft_subset [of st x] Cons.prems by auto
  moreover have "set xs \<inter> set (popNonLeft st x) = {}"
    using popNonLeft_subset [of st x] Cons.prems by auto
  ultimately have "distinct (xs @ scanStep x st)"
    using Cons.prems by (auto simp: scanStep_def)
  then show ?case using Cons.IH by simp
qed

lemma convexHull_distinct: "distinct ps \<Longrightarrow> distinct (convexHull ps)"
  unfolding convexHull_def using fold_scan_distinct [of "sort_key (polarAngle (lowest ps)) ps" "[]"]
  by simp

lemma perimeter_fold_mono:
  "acc \<le> fold (\<lambda>(p1, p2) perimeter. perimeter + sqrt ((px p2 - px p1)\<^sup>2 + (py p2 - py p1)\<^sup>2))
         pairs acc"
proof (induction pairs arbitrary: acc)
  case Nil
  then show ?case by simp
next
  case (Cons pr pairs)
  obtain p1 p2 where pr: "pr = (p1, p2)" by (cases pr)
  have "acc \<le> acc + sqrt ((px p2 - px p1)\<^sup>2 + (py p2 - py p1)\<^sup>2)" by simp
  also have "\<dots> \<le> fold (\<lambda>(p1, p2) perimeter. perimeter + sqrt ((px p2 - px p1)\<^sup>2 + (py p2 - py p1)\<^sup>2))
         pairs (acc + sqrt ((px p2 - px p1)\<^sup>2 + (py p2 - py p1)\<^sup>2))"
    by (rule Cons.IH)
  finally show ?case by (simp add: pr)
qed

lemma calculatePerimeter_positive:
  assumes "distinct contour" "2 \<le> length contour"
  shows "0 < calculatePerimeter contour"
proof -
  obtain a b rest where c: "contour = a # b # rest"
    using assms(2) by (cases contour; cases "tl contour") auto
  with assms(1) have ne: "a \<noteq> b" by auto
  then have "px b - px a \<noteq> 0 \<or> py b - py a \<noteq> 0" by (cases a; cases b) auto
  then have "0 < (px b - px a)\<^sup>2 + (py b - py a)\<^sup>2"
    by (metis add.commute add_pos_nonneg zero_le_power2 zero_less_power2)
  then have pos: "0 < sqrt ((px b - px a)\<^sup>2 + (py b - py a)\<^sup>2)" by simp
  have "zip contour (rotate1 contour) = (a, b) # zip (b # rest) (rest @ [a])"
    by (simp add: c)
  then have "calculatePerimeter contour =
      fold (\<lambda>(p1, p2) perimeter. perimeter + sqrt ((px p2 - px p1)\<^sup>2 + (py p2 - py p1)\<^sup>2))
        (zip (b # rest) (rest @ [a])) (sqrt ((px b - px a)\<^sup>2 + (py b - py a)\<^sup>2))"
    unfolding calculatePerimeter_def by simp
  moreover from pos perimeter_fold_mono [of "sqrt ((px b - px a)\<^sup>2 + (py b - py a)\<^sup>2)"
      "zip (b # rest) (rest @ [a])"]
  have "0 < fold (\<lambda>(p1, p2) perimeter. perimeter + sqrt ((px p2 - px p1)\<^sup>2 + (py p2 - py p1)\<^sup>2))
        (zip (b # rest) (rest @ [a])) (sqrt ((px b - px a)\<^sup>2 + (py b - py a)\<^sup>2))"
    by (rule less_le_trans)
  ultimately show ?thesis by simp
qed

lemma contour_perimeter_positive:
  assumes "distinct component" "8 \<le> length (extractBoundary component width height)"
  shows "0 < calculatePerimeter (contourOf component width height)"
proof -
  define boundary where "boundary = extractBoundary component width height"
  have db: "distinct boundary"
    unfolding boundary_def extractBoundary_def Let_def using assms(1) by simp
  have lb: "8 \<le> length boundary" using assms(2) by (simp add: boundary_def)
  have dh: "distinct (convexHull boundary)" using db by (rule convexHull_distinct)
  have "2 \<le> length (sort_key (polarAngle (lowest boundary)) boundary)" using lb by simp
  then have "2 \<le> length (fold scanStep (sort_key (polarAngle (lowest boundary)) boundary) [])"
    by (rule fold_scan_length)
  then have lh: "2 \<le> length (convexHull boundary)"
    using lb by (simp add: convexHull_def)
  have "contourOf component width height = boundary \<or>
      contourOf component width height = convexHull boundary"
    unfolding contourOf_def selectContour_def boundary_def by simp
  then show ?thesis
    using db lb dh lh by (auto intro!: calculatePerimeter_positive)
qed

lemma length_concat_replicate: "length (concat (replicate n xs)) = n * length xs"
  by (induction n) simp_all

lemma nth_concat_quad:
  "i < n \<Longrightarrow> k < 4 \<Longrightarrow> concat (replicate n [a, b, c, d]) ! (4 * i + k) = [a, b, c, d] ! k"
proof (induction n arbitrary: i)
  case 0
  then show ?case by simp
next
  case (Suc n)
  show ?case
  proof (cases i)
    case 0
    from Suc.prems(2) have "k = 0 \<or> k = 1 \<or> k = 2 \<or> k = 3" by arith
    with 0 show ?thesis by auto
  next
    case (Suc j)
    with Suc.prems have j: "j < n" by simp
    have "4 * i + k = length [a, b, c, d] + (4 * j + k)" using Suc by simp
    then have "concat (replicate (Suc n) [a, b, c, d]) ! (4 * i + k)
        = concat (replicate n [a, b, c, d]) ! (4 * j + k)"
      by (simp only: replicate_Suc concat.simps nth_append_length_plus)
    with Suc.IH [OF j Suc.prems(2)] show ?thesis by simp
  qed
qed

lemma nth_concat_quads:
  assumes "i < n"
  shows "concat (replicate n [a, b, c, d]) ! (4 * i) = a \<and>
     concat (replicate n [a, b, c, d]) ! (4 * i + 1) = b \<and>
     concat (replicate n [a, b, c, d]) ! (4 * i + 2) = c \<and>
     concat (replicate n [a, b, c, d]) ! (4 * i + 3) = d"
  using nth_concat_quad [OF assms, of 0 a b c d] nth_concat_quad [OF assms, of 1 a b c d]
    nth_concat_quad [OF assms, of 2 a b c d] nth_concat_quad [OF assms, of 3 a b c d]
  by simp

lemma blockImage_dark:
  assumes "i < 100"
  shows "blockImage ! (4 * i) = 0" "blockImage ! (4 * i + 1) = 0"
    "blockImage ! (4 * i + 2) = 0" "blockImage ! (4 * i + 3) = 255"
proof -
  have "4 * i + 3 < length (concat (replicate 100 [0, 0, 0, 255 :: nat]))"
    using assms by (simp add: length_concat_replicate)
  then have "\<And>k. k \<le> 3 \<Longrightarrow> blockImage ! (4 * i + k)
      = concat (replicate 100 [0, 0, 0, 255]) ! (4 * i + k)"
    unfolding blockImage_def by (simp add: nth_append)
  from this [of 0] this [of 1] this [of 2] this [of 3]
    nth_concat_quads [OF assms, of "0 :: nat" 0 0 255]
  show "blockImage ! (4 * i) = 0" "blockImage ! (4 * i + 1) = 0"
    "blockImage ! (4 * i + 2) = 0" "blockImage ! (4 * i + 3) = 255"
    by simp_all
qed

lemma blockImage_light:
  assumes "100 \<le> i" "i < 110"
  shows "blockImage ! (4 * i) = 255" "blockImage ! (4 * i + 1) = 255"
    "blockImage ! (4 * i + 2) = 255" "blockImage ! (4 * i + 3) = 255"
proof -
  have "\<And>k. blockImage ! (4 * i + k)
      = concat (replicate 10 [255, 255, 255, 255]) ! (4 * (i - 100) + k)"
    unfolding blockImage_def using assms
    by (simp add: nth_append length_concat_replicate algebra_simps)
  moreover have "i - 100 < 10" using assms by simp
  ultimately show "blockImage ! (4 * i) = 255" "blockImage ! (4 * i + 1) = 255"
    "blockImage ! (4 * i + 2) = 255" "blockImage ! (4 * i + 3) = 255"
    using nth_concat_quads [of "i - 100" 10 255 255 255 255]
    by (metis add.right_neutral, metis, metis, metis)
qed

lemma block_mask: "createBinaryMask blockImage 10 11 = blockMask"
proof (rule nth_equalityI)
  show "length (createBinaryMask blockImage 10 11) = length blockMask"
    by (simp add: createBinaryMask_def blockMask_def)
next
  fix i assume "i < length (createBinaryMask blockImage 10 11)"
  then have i: "i < 110" by (simp add: createBinaryMask_def)
  have len: "length blockImage = 440"
    by (simp add: blockImage_def length_concat_replicate)
  show "createBinaryMask blockImage 10 11 ! i = blockMask ! i"
  proof (cases "i < 100")
    case True
    from blockImage_dark [OF True] show ?thesis
      using True i len by (simp add: createBinaryMask_def blockMask_def nth_append)
  next
    case False
    then have "100 \<le> i" by simp
    from blockImage_light [OF this i] show ?thesis
      using False i len by (simp add: createBinaryMask_def blockMask_def nth_append)
  qed
qed

lemma block_components: "findConnectedComponents blockMask 10 11 = [block]"
  unfolding findConnectedComponents_def
  by (simp add: upt_rec scanPixel_def floodFill_def floodLoop.simps pixelIndex_def blockMask_def
      nth_append block_def downward_def)

lemma notchImage_dark:
  assumes "i < 109"
  shows "notchImage ! (4 * i) = 0" "notchImage ! (4 * i + 1) = 0"
    "notchImage ! (4 * i + 2) = 0" "notchImage ! (4 * i + 3) = 255"
proof -
  have "4 * i + 3 < length (concat (replicate 109 [0, 0, 0, 255 :: nat]))"
    using assms by (simp add: length_concat_replicate)
  then have "\<And>k. k \<le> 3 \<Longrightarrow> notchImage ! (4 * i + k)
      = concat (replicate 109 [0, 0, 0, 255]) ! (4 * i + k)"
    unfolding notchImage_def by (simp add: nth_append)
  from this [of 0] this [of 1] this [of 2] this [of 3]
    nth_concat_quads [OF assms, of "0 :: nat" 0 0 255]
  show "notchImage ! (4 * i) = 0" "notchImage ! (4 * i + 1) = 0"
    "notchImage ! (4 * i + 2) = 0" "notchImage ! (4 * i + 3) = 255"
    by simp_all
qed

lemma notchImage_light:
  assumes "109 \<le> i" "i < 120"
  shows "notchImage ! (4 * i) = 255" "notchImage ! (4 * i + 1) = 255"
    "notchImage ! (4 * i + 2) = 255" "notchImage ! (4 * i + 3) = 255"
proof -
  have "\<And>k. notchImage ! (4 * i + k)
      = concat (replicate 11 [255, 255, 255, 255]) ! (4 * (i - 109) + k)"
    unfolding notchImage_def using assms
    by (simp add: nth_append length_concat_replicate algebra_simps)
  moreover have "i - 109 < 11" using assms by simp
  ultimately show "notchImage ! (4 * i) = 255" "notchImage ! (4 * i + 1) = 255"
    "notchImage ! (4 * i + 2) = 255" "notchImage ! (4 * i + 3) = 255"
    using nth_concat_quads [of "i - 109" 11 255 255 255 255]
    by (metis add.right_neutral, metis, metis, metis)
qed

lemma notch_mask: "createBinaryMask notchImage 10 12 = notchMask"
proof (rule nth_equalityI)
  show "length (createBinaryMask notchImage 10 12) = length notchMask"
    by (simp add: createBinaryMask_def notchMask_def)
next
  fix i assume "i < length (createBinaryMask notchImage 10 12)"
  then have i: "i < 120" by (simp add: createBinaryMask_def)
  have len: "length notchImage = 480"
    by (simp add: notchImage_def length_concat_replicate)
  show "createBinaryMask notchImage 10 12 ! i = notchMask ! i"
  proof (cases "i < 109")
    case True
    from notchImage_dark [OF True] show ?thesis
      using True i len by (simp add: createBinaryMask_def notchMask_def nth_append)
  next
    case False
    then have "109 \<le> i" by simp
    from notchImage_light [OF this i] show ?thesis
      using False i len by (simp add: createBinaryMask_def notchMask_def nth_append)
  qed
qed

lemma notch_components: "findConnectedComponents notchMask 10 12 = [notch]"
  unfolding findConnectedComponents_def
  by (simp add: upt_rec scanPixel_def floodFill_def floodLoop.simps pixelIndex_def notchMask_def
      nth_append notch_def downward_def downwardTall_def)

lemma block_detected: "0 < frames \<Longrightarrow> detectShapes frames blockImage 10 11 = Inr blockResult"
  by (simp add: detectShapes_def Let_def block_mask block_components block_length
      block_analysis blockShape_def blockResult_def)

lemma notch_detected:
  "1 < frames \<Longrightarrow> detectShapes frames notchImage 10 12 = Inr notchResult"
  by (simp add: detectShapes_def Let_def notch_mask notch_components notch_length
      notch_analysis notchResult_def)

lemma detectShapes_returns:
  "200 < frames \<Longrightarrow> \<exists>result. detectShapes frames data width height = Inr result"
  by (simp add: detectShapes_def Let_def analyzeComponents_eq)

lemma detectShapes_shapes:
  assumes "detectShapes frames data width height = Inr result"
  shows "analyzeComponents frames
           (findConnectedComponents (createBinaryMask data width height) width height)
           (real width) (real height) [] = Inr (result_shapes result)"
  using assms by (auto simp: detectShapes_def Let_def split: sum.splits)

lemma block_contourOf: "contourOf block 10 11 = blockRow"
  by (simp add: contourOf_def block_boundary block_hull block_length block_bbox block_extent
      block_contour)

text \<open>
  Claim C1. A component reaches the classifier only if the flood fill found it and its
  boundary has at least 8 points. For every such component the perimeter that
  \<^verbatim>\<open>analyzeComponent\<close> hands to \<^verbatim>\<open>classifyShape\<close>, the perimeter of the selected contour, is
  positive: a perimeter of 0 does not occur there, and the circularity is the ordinary
  quotient \<open>4 * pi * area / perimeter\<^sup>2\<close>, a positive number. Computing it never divides by
  a zero perimeter.
\<close>

theorem zero_perimeter_circularity:
  assumes "c \<in> set (findConnectedComponents binary width height)"
    and "8 \<le> length (extractBoundary c (real width) (real height))"
  shows "0 < calculatePerimeter (contourOf c (real width) (real height)) \<and>
         0 < 4 * pi * real (length c) / (calculatePerimeter (contourOf c (real width) (real height)))\<^sup>2 \<and>
         circularityOf (real (length c)) (calculatePerimeter (contourOf c (real width) (real height)))
           = Fin (4 * pi * real (length c) /
                  (calculatePerimeter (contourOf c (real width) (real height)))\<^sup>2)"
proof -
  define perimeter where "perimeter = calculatePerimeter (contourOf c (real width) (real height))"
  have "distinct c" using assms(1) by (rule findConnectedComponents_distinct)
  then have pos: "0 < perimeter"
    unfolding perimeter_def using assms(2) by (rule contour_perimeter_positive)
  have "extractBoundary c (real width) (real height) \<noteq> []" using assms(2) by auto
  then have "c \<noteq> []" by (auto simp: extractBoundary_def)
  then have area: "0 < real (length c)" by simp
  have "circularityOf (real (length c)) perimeter = Fin (4 * pi * real (length c) / perimeter\<^sup>2)"
    using pos by (simp add: circularityOf_def power2_eq_square)
  moreover have "0 < 4 * pi * real (length c) / perimeter\<^sup>2"
    using pos area by simp
  ultimately show ?thesis using pos unfolding perimeter_def by simp
qed

theorem zero_perimeter_circularity_witness:
  "block \<in> set (findConnectedComponents blockMask 10 11) \<and>
   length (extractBoundary block 10 11) = 10 \<and>
   calculatePerimeter (contourOf block 10 11) = 18 \<and>
   circularityOf (real (length block)) (calculatePerimeter (contourOf block 10 11))
     = Fin (4 * pi * 100 / 18\<^sup>2)"
proof -
  have len: "length (extractBoundary block 10 11) = 10"
    by (simp add: block_boundary blockRow_def downward_def)
  from zero_perimeter_circularity [of block blockMask 10 11] len
  show ?thesis
    by (simp add: block_components block_contourOf block_perimeter block_length)
qed

text \<open>
  Claim C8. With room for 201 nested calls of the simplifier on the stack, the detection
  raises nothing: the analysis of a component returns for every component, and so does
  the loop over any list of components. A component that is rejected (fewer than 50
  pixels, a bounding box below 10 in either dimension, a boundary of fewer than 8 points,
  or no classifier rule matched) is skipped or analysed to \<^verbatim>\<open>null\<close>, and the output is the
  one obtained without it, whatever components come before and after it.
\<close>

theorem rejection_is_silent:
  assumes "200 < frames"
  shows "(\<exists>result. detectShapes frames data width height = Inr result) \<and>
   (\<exists>found. analyzeComponents frames components w h [] = Inr found) \<and>
   (\<exists>r. analyzeComponent frames c w h = Inr r) \<and>
   (rejected frames c w h \<longrightarrow>
      (length c < 50 \<or> analyzeComponent frames c w h = Inr None) \<and>
      analyzeComponents frames (before @ c # after) w h []
        = analyzeComponents frames (before @ after) w h [])"
  using rejection_skips [OF assms, of components w h c before after]
    detectShapes_returns [OF assms, of data width height]
  by blast

theorem rejection_is_silent_witness:
  "(200 :: nat) < 201 \<and> rejected 201 [Point 0 0] 10 11 \<and>
   analyzeComponent 201 [Point 0 0] 10 11 = Inr None \<and>
   analyzeComponents 201 ([] @ [Point 0 0] # [block]) 10 11 [] = Inr [blockShape] \<and>
   analyzeComponents 201 ([] @ [block]) 10 11 [] = Inr [blockShape] \<and>
   detectShapes 201 blockImage 10 11 = Inr blockResult"
proof -
  have rej: "rejected 201 [Point 0 0] 10 11" by (simp add: rejected_def)
  have small: "analyzeComponent 201 [Point 0 0] 10 11 = Inr None"
    by (simp add: analyzeComponent_def boundingBoxOf_def minXOf_def maxXOf_def
        minYOf_def maxYOf_def)
  from rejection_is_silent [of 201 blockImage 10 11 "[]" 10 11 "[Point 0 0]" "[]" "[block]"] rej
  have "analyzeComponents 201 ([] @ [Point 0 0] # [block]) 10 11 []
      = analyzeComponents 201 ([] @ [block]) 10 11 []"
    by simp
  with rej small block_list [of 201] block_detected [of 201] show ?thesis by simp
qed

text \<open>
  Claim C7, as amended. Every shape that the detection returns comes from a connected
  component of the mask, a list of pairwise different pixels: its area is the number of
  these pixels, its bounding box is the component's, and its centre is
  \<open>(x + (width - 1) / 2, y + (height - 1) / 2)\<close>, the midpoint of the extreme pixel
  coordinates \<open>x .. x + width - 1\<close> and \<open>y .. y + height - 1\<close> of the box. This is never the
  midpoint \<open>(x + width / 2, y + height / 2)\<close> of the box itself. None of the three depends
  on the contour that was analysed, and the centre depends on the box alone.
\<close>

theorem shape_area_and_center:
  assumes "detectShapes frames data width height = Inr result"
    and "s \<in> set (result_shapes result)"
  shows "\<exists>c\<in>set (findConnectedComponents (createBinaryMask data width height) width height).
           distinct c \<and>
           shape_area s = real (length c) \<and>
           shape_boundingBox s = boundingBoxOf c (real width) (real height) \<and>
           shape_center s =
             Point (bbox_x (shape_boundingBox s) + (bbox_width (shape_boundingBox s) - 1) / 2)
                   (bbox_y (shape_boundingBox s) + (bbox_height (shape_boundingBox s) - 1) / 2) \<and>
           shape_center s \<noteq>
             Point (bbox_x (shape_boundingBox s) + bbox_width (shape_boundingBox s) / 2)
                   (bbox_y (shape_boundingBox s) + bbox_height (shape_boundingBox s) / 2)"
proof -
  from analyzed_area_and_center [OF detectShapes_shapes [OF assms(1)] assms(2)]
  obtain c where c: "c \<in> set (findConnectedComponents (createBinaryMask data width height) width height)"
    "shape_area s = real (length c)"
    "shape_boundingBox s = boundingBoxOf c (real width) (real height)"
    "shape_center s =
       Point (bbox_x (shape_boundingBox s) + (bbox_width (shape_boundingBox s) - 1) / 2)
             (bbox_y (shape_boundingBox s) + (bbox_height (shape_boundingBox s) - 1) / 2)"
    by blast
  from c(1) have "distinct c" by (rule findConnectedComponents_distinct)
  moreover have "shape_center s \<noteq>
      Point (bbox_x (shape_boundingBox s) + bbox_width (shape_boundingBox s) / 2)
            (bbox_y (shape_boundingBox s) + bbox_height (shape_boundingBox s) / 2)"
    by (subst c(4)) (simp add: field_simps)
  ultimately show ?thesis using c by blast
qed

theorem shape_area_and_center_witness:
  "detectShapes 201 notchImage 10 12 = Inr notchResult \<and>
   result_shapes notchResult = [notchShape] \<and>
   findConnectedComponents (createBinaryMask notchImage 10 12) 10 12 = [notch] \<and>
   distinct notch \<and>
   shape_area notchShape = real (length notch) \<and>
   shape_boundingBox notchShape = boundingBoxOf notch 10 12 \<and>
   shape_center notchShape = Point (0 + (10 - 1) / 2) (0 + (11 - 1) / 2) \<and>
   centroid notch = Point (486 / 109) (540 / 109) \<and>
   shape_center notchShape \<noteq> centroid notch"
proof -
  have shapes: "result_shapes notchResult = [notchShape]" by (simp add: notchResult_def)
  have comps: "findConnectedComponents (createBinaryMask notchImage 10 12) 10 12 = [notch]"
    by (simp add: notch_mask notch_components)
  have det: "detectShapes 201 notchImage 10 12 = Inr notchResult"
    by (rule notch_detected) simp
  from shape_area_and_center [of 201 notchImage 10 12 notchResult notchShape] det shapes comps
  have "distinct notch" by simp
  moreover have "shape_area notchShape = real (length notch)"
    "shape_boundingBox notchShape = boundingBoxOf notch 10 12"
    "shape_center notchShape = Point (0 + (10 - 1) / 2) (0 + (11 - 1) / 2)"
    "shape_center notchShape \<noteq> centroid notch"
    by (simp_all add: notchShape_def notch_length notch_bbox notch_centroid)
  ultimately show ?thesis using det shapes comps notch_centroid by simp
qed

text \<open>
  Claim C7 as stated fails: the box of the concrete component is 10 wide and 10 high from
  \<open>(0, 0)\<close>, its midpoint is \<open>(5, 5)\<close>, and the centre returned is \<open>(4.5, 4.5)\<close>.
\<close>

theorem shape_area_and_center_counterexample:
  "detectShapes 201 blockImage 10 11 = Inr blockResult \<and>
   result_shapes blockResult = [blockShape] \<and>
   shape_boundingBox blockShape
     = \<lparr>bbox_x = 0, bbox_y = 0, bbox_width = 10, bbox_height = 10\<rparr> \<and>
   shape_center blockShape = Point (9 / 2) (9 / 2) \<and>
   Point (9 / 2) (9 / 2) \<noteq> Point (0 + 10 / 2) (0 + 10 / 2)"
  using block_detected [of 201] by (simp add: blockResult_def blockShape_def)

text \<open>
  Claim C10. Every shape that the detection returns has a bounding box at least 10 wide
  and 10 high, an area of at least 50, and a confidence between 0.60 and 0.98.
\<close>

theorem detected_shape_bounds:
  assumes "detectShapes frames data width height = Inr result"
    and "s \<in> set (result_shapes result)"
  shows "10 \<le> bbox_width (shape_boundingBox s) \<and> 10 \<le> bbox_height (shape_boundingBox s) \<and>
         50 \<le> shape_area s \<and>
         (\<exists>r. shape_confidence s = Fin r \<and> 0.60 \<le> r \<and> r \<le> 0.98)"
  using analyzed_shape_bounds [OF detectShapes_shapes [OF assms(1)] assms(2)] .

theorem detected_shape_bounds_witness:
  "detectShapes 201 blockImage 10 11 = Inr blockResult \<and>
   result_shapes blockResult = [blockShape] \<and>
   10 \<le> bbox_width (shape_boundingBox blockShape) \<and>
   10 \<le> bbox_height (shape_boundingBox blockShape) \<and>
   50 \<le> shape_area blockShape \<and>
   shape_confidence blockShape = Fin 0.60"
  using detected_shape_bounds [of 201 blockImage 10 11 blockResult blockShape]
    block_detected [of 201]
  by (simp add: blockResult_def) (simp add: blockShape_def)

end
